theory Spec2Isabelle
  imports Main "HOL-Library.Char_ord" "HOL-Library.List_Lexorder"
begin

section \<open>Python values used by the program\<close>

text \<open>
  Python \<open>str\<close> values come in two readings. Identifiers, timestamps, roles and the names
  of personalities and models are only compared, concatenated and sorted: they are
  \<^typ>\<open>string\<close>, the UTF-8 bytes of the text, whose lexicographic order is the order of
  \<open>sorted\<close> on the code points. Text that is split, stripped, lower-cased or searched
  (message contents, names, biographies, prompts, completions, replies) is a list of
  Unicode code points, each the integer that \<open>ord\<close> gives; \<open>ascii\<close> reads such a text off
  a literal of ASCII characters.
\<close>

type_synonym pystr = "int list"

definition ascii :: "string \<Rightarrow> pystr" where
  "ascii s = map of_char s"

datatype py_error = IOError | JSONDecodeError | RequestError | OtherError

text \<open>
  A \<open>dict\<close> is an association list with distinct keys in insertion order:
  \<open>d.get(k)\<close>, \<open>d[k] = v\<close> (in place when the key exists, appended otherwise),
  \<open>del d[k]\<close>, \<open>d.keys()\<close>, \<open>len(d)\<close>.
\<close>

type_synonym ('k, 'v) dict = "('k \<times> 'v) list"

definition dict_get :: "('k, 'v) dict \<Rightarrow> 'k \<Rightarrow> 'v option" where
  "dict_get d k = map_of d k"

fun dict_set :: "'k \<Rightarrow> 'v \<Rightarrow> ('k, 'v) dict \<Rightarrow> ('k, 'v) dict" where
  "dict_set k v [] = [(k, v)]"
| "dict_set k v (p # ps) = (if fst p = k then (k, v) # ps else p # dict_set k v ps)"

definition dict_del :: "'k \<Rightarrow> ('k, 'v) dict \<Rightarrow> ('k, 'v) dict" where
  "dict_del k d = filter (\<lambda>p. fst p \<noteq> k) d"

definition dict_keys :: "('k, 'v) dict \<Rightarrow> 'k list" where
  "dict_keys d = map fst d"

definition well_formed :: "('k, 'v) dict \<Rightarrow> bool" where
  "well_formed d = distinct (dict_keys d)"

text \<open>
  A JSON file on disk: absent, unreadable (not JSON, or cut short by a failed dump), or
  holding a value. \<open>open(f, 'w')\<close> followed by \<open>json.dump\<close> either writes the value,
  fails to open (the file stays as it was) or fails while dumping (the file is cut short);
  in both failures the exception reaches the caller.
\<close>

datatype 'a json_file = Missing | Garbled | Stored 'a

datatype write_outcome = Written | OpenFailed | DumpFailed

fun write_json :: "write_outcome \<Rightarrow> 'a \<Rightarrow> 'a json_file \<Rightarrow> py_error option \<times> 'a json_file" where
  "write_json Written v f = (None, Stored v)"
| "write_json OpenFailed v f = (Some IOError, f)"
| "write_json DumpFailed v f = (Some IOError, Garbled)"

record message =
  role :: "string option"
  content :: "pystr option"
  timestamp :: "string option"

section \<open>utils/data\_manager.py: DataManager\<close>

record data_manager =
  replied_messages :: "(string, string) dict"
  rejected_matches :: "string set"
  conversation_cache :: "(string, message list) dict"
  replied_file :: "(string, string) dict json_file"
  rejected_file :: "string set json_file"
  conversation_cache_file :: "(string, message list) dict json_file"

definition has_replied_to :: "data_manager \<Rightarrow> string \<Rightarrow> string \<Rightarrow> bool" where
  "has_replied_to dm match_id message_time =
     (dict_get (replied_messages dm) match_id = Some message_time)"

definition has_ever_replied_to :: "data_manager \<Rightarrow> string \<Rightarrow> bool" where
  "has_ever_replied_to dm match_id = (match_id \<in> set (dict_keys (replied_messages dm)))"

text \<open>
  The mutating methods change the object in memory first and write the file after; when
  the write raises, the exception leaves the method with the memory already changed. They
  return the exception (if any) and the manager afterwards.
\<close>

definition mark_replied ::
  "write_outcome \<Rightarrow> string \<Rightarrow> string \<Rightarrow> data_manager \<Rightarrow> py_error option \<times> data_manager" where
  "mark_replied w match_id message_time dm =
     (let r = dict_set match_id message_time (replied_messages dm);
          (e, f) = write_json w r (replied_file dm)
      in (e, dm\<lparr>replied_messages := r, replied_file := f\<rparr>))"

definition is_rejected :: "data_manager \<Rightarrow> string \<Rightarrow> bool" where
  "is_rejected dm match_id = (match_id \<in> rejected_matches dm)"

definition mark_rejected ::
  "write_outcome \<Rightarrow> string \<Rightarrow> data_manager \<Rightarrow> py_error option \<times> data_manager" where
  "mark_rejected w match_id dm =
     (let r = insert match_id (rejected_matches dm);
          (e, f) = write_json w r (rejected_file dm)
      in (e, dm\<lparr>rejected_matches := r, rejected_file := f\<rparr>))"

definition remove_rejected ::
  "write_outcome \<Rightarrow> string \<Rightarrow> data_manager \<Rightarrow> py_error option \<times> data_manager" where
  "remove_rejected w match_id dm =
     (let r = rejected_matches dm - {match_id};
          (e, f) = write_json w r (rejected_file dm)
      in (e, dm\<lparr>rejected_matches := r, rejected_file := f\<rparr>))"

text \<open>
  \<open>cache_conversation\<close>: store, then if \<open>len(cache) > 100\<close> delete the keys
  \<open>sorted(cache.keys())[:20]\<close> one by one, then dump the cache.
\<close>

definition oldest :: "(string, 'v) dict \<Rightarrow> string list" where
  "oldest d = take 20 (sort (dict_keys d))"

definition evict :: "(string, 'v) dict \<Rightarrow> (string, 'v) dict" where
  "evict d = (if length d > 100 then fold dict_del (oldest d) d else d)"

definition cache_conversation ::
  "write_outcome \<Rightarrow> string \<Rightarrow> message list \<Rightarrow> data_manager \<Rightarrow> py_error option \<times> data_manager" where
  "cache_conversation w match_id msgs dm =
     (let c = evict (dict_set match_id msgs (conversation_cache dm));
          (e, f) = write_json w c (conversation_cache_file dm)
      in (e, dm\<lparr>conversation_cache := c, conversation_cache_file := f\<rparr>))"

definition get_cached_conversation :: "data_manager \<Rightarrow> string \<Rightarrow> message list" where
  "get_cached_conversation dm match_id =
     (case dict_get (conversation_cache dm) match_id of None \<Rightarrow> [] | Some ms \<Rightarrow> ms)"

section \<open>Python string operations\<close>

text \<open>
  The code points that \<open>str.split()\<close> and \<open>str.strip()\<close> take as whitespace: the ones for
  which \<open>str.isspace\<close> holds.
\<close>

definition is_space :: "int \<Rightarrow> bool" where
  "is_space c =
     (c \<in> set [0x09, 0x0A, 0x0B, 0x0C, 0x0D, 0x1C, 0x1D, 0x1E, 0x1F, 0x20, 0x85, 0xA0,
                0x1680, 0x2028, 0x2029, 0x202F, 0x205F, 0x3000]
      \<or> (0x2000 \<le> c \<and> c \<le> 0x200A))"

text \<open>
  \<open>str.lower()\<close>, code point by code point. An ASCII capital becomes its small letter, the
  Kelvin sign U+212A becomes \<open>k\<close> and U+0130 becomes \<open>i\<close> followed by U+0307; these two
  are the only code points beyond ASCII whose lower-case form holds an ASCII character.
  Every other code point beyond ASCII becomes one or more code points beyond ASCII, for
  which the code point itself stands here: the program only searches the lower-cased text
  for words of ASCII letters, and for that search any code point beyond ASCII does the
  same.
\<close>

definition lower_char :: "int \<Rightarrow> pystr" where
  "lower_char c =
     (if 0x41 \<le> c \<and> c \<le> 0x5A then [c + 0x20]
      else if c = 0x212A then [0x6B]
      else if c = 0x130 then [0x69, 0x307]
      else [c])"

definition py_lower :: "pystr \<Rightarrow> pystr" where
  "py_lower s = concat (map lower_char s)"

fun starts_with :: "'a list \<Rightarrow> 'a list \<Rightarrow> bool" where
  "starts_with [] s = True"
| "starts_with (a # w) [] = False"
| "starts_with (a # w) (b # s) = (a = b \<and> starts_with w s)"

text \<open>\<open>w in s\<close> on strings: \<open>w\<close> occurs in \<open>s\<close> as a contiguous run.\<close>

fun py_in :: "'a list \<Rightarrow> 'a list \<Rightarrow> bool" where
  "py_in w [] = starts_with w []"
| "py_in w (c # s) = (starts_with w (c # s) \<or> py_in w s)"

text \<open>
  What is known of the lower-case form that \<open>str.lower()\<close> gives one code point of a
  text: for an ASCII character, U+212A and U+0130 it is the one of \<open>lower_char\<close>, and for
  any other code point some non-empty run of code points beyond ASCII (which run may depend
  on the neighbours, as for the capital sigma). Two texts have the same ASCII skeleton when
  they differ only in their runs of code points beyond ASCII.
\<close>

definition lowers_to :: "int \<Rightarrow> pystr \<Rightarrow> bool" where
  "lowers_to c block =
     (if c < 0x80 \<or> c = 0x212A \<or> c = 0x130 then block = lower_char c
      else block \<noteq> [] \<and> (\<forall>d \<in> set block. 0x80 \<le> d))"

inductive same_ascii :: "pystr \<Rightarrow> pystr \<Rightarrow> bool" where
  "same_ascii [] []"
| "same_ascii a b \<Longrightarrow> same_ascii (c # a) (c # b)"
| "same_ascii a b \<Longrightarrow> x \<noteq> [] \<Longrightarrow> y \<noteq> [] \<Longrightarrow> \<forall>d \<in> set x. 0x80 \<le> d \<Longrightarrow> \<forall>d \<in> set y. 0x80 \<le> d
   \<Longrightarrow> same_ascii (x @ a) (y @ b)"

text \<open>
  \<open>s.split()\<close>: the maximal runs of non-whitespace characters, in order; the first
  argument is the run read so far.
\<close>

fun split_from :: "pystr \<Rightarrow> pystr \<Rightarrow> pystr list" where
  "split_from w [] = (if w = [] then [] else [w])"
| "split_from w (c # s) =
     (if is_space c then (if w = [] then split_from [] s else w # split_from [] s)
      else split_from (w @ [c]) s)"

definition py_split :: "pystr \<Rightarrow> pystr list" where
  "py_split s = split_from [] s"

text \<open>A word: a non-empty run of characters none of which is whitespace.\<close>

definition word :: "pystr \<Rightarrow> bool" where
  "word w = (w \<noteq> [] \<and> list_all (\<lambda>c. \<not> is_space c) w)"

fun py_join :: "'a list \<Rightarrow> 'a list list \<Rightarrow> 'a list" where
  "py_join sep [] = []"
| "py_join sep [w] = w"
| "py_join sep (w # v # ws) = w @ sep @ py_join sep (v # ws)"

definition py_strip :: "pystr \<Rightarrow> pystr" where
  "py_strip s = rev (dropWhile is_space (rev (dropWhile is_space s)))"

text \<open>\<open>str(x)\<close> of a value that may be \<open>None\<close>, as an f-string renders it.\<close>

definition py_str :: "string option \<Rightarrow> string" where
  "py_str x = (case x of None \<Rightarrow> ''None'' | Some s \<Rightarrow> s)"

section \<open>personality.py: MessageGenerator\<close>

definition refusal_patterns :: "pystr list" where
  "refusal_patterns =
     map ascii
       [''i do not feel comfortable'',
        ''i'' @ [CHR 0x27] @ ''m sorry'',
        ''unable to'',
        ''cannot continue'',
        ''i do not actually have the ability'',
        ''i should have been more direct'',
        ''i do not engage in roleplay'',
        ''i'' @ [CHR 0x27] @ ''m not actually a real person'',
        ''i cannot send real messages'',
        ''i cannot make real phone calls'',
        ''i am an ai program'',
        ''as an ai'',
        ''language model'']"

text \<open>
  \<open>_is_refusal\<close>: every pattern is a literal (no regular-expression operator occurs in
  it), so \<open>re.search(pattern, text_lower)\<close> is the substring test.
\<close>

definition is_refusal :: "pystr \<Rightarrow> bool" where
  "is_refusal text = list_ex (\<lambda>pattern. py_in pattern (py_lower text)) refusal_patterns"

text \<open>
  \<open>re.sub(r'\*[^*]+\*', '', text)\<close>: scanning from the left, an asterisk followed by one
  or more characters other than an asterisk and then an asterisk is dropped, and the scan
  goes on behind it; any other character is kept.
\<close>

definition asterisk :: int where
  "asterisk = of_char (CHR ''*'')"

function strip_actions :: "pystr \<Rightarrow> pystr" where
  "strip_actions [] = []"
| "strip_actions (c # cs) =
     (if c = asterisk \<and> takeWhile (\<lambda>x. x \<noteq> asterisk) cs \<noteq> []
          \<and> dropWhile (\<lambda>x. x \<noteq> asterisk) cs \<noteq> []
      then strip_actions (tl (dropWhile (\<lambda>x. x \<noteq> asterisk) cs))
      else c # strip_actions cs)"
  by pat_completeness auto
termination
proof (relation "measure length")
  fix c :: int and cs :: pystr
  have "length (tl (dropWhile (\<lambda>x. x \<noteq> asterisk) cs)) \<le> length cs"
    using length_dropWhile_le [of "\<lambda>x. x \<noteq> asterisk" cs] by simp
  then show "(tl (dropWhile (\<lambda>x. x \<noteq> asterisk) cs), c # cs) \<in> measure length"
    by simp
qed simp_all

definition sanitize_reply :: "pystr \<Rightarrow> pystr" where
  "sanitize_reply text =
     (let text1 = strip_actions text;
          text2 = py_join (ascii '' '') (py_split text1);
          text3 = (if text2 \<noteq> [] \<and> last text2 \<notin> set (ascii ''.!?'')
                   then text2 @ ascii ''.'' else text2)
      in py_strip text3)"

text \<open>
  \<open>_generate_fallback\<close>: \<open>random.choice\<close> over the five templates; the draw is the
  argument \<open>pick\<close>. The first two templates end in the code points the source file holds
  there.
\<close>

definition fallbacks :: "pystr \<Rightarrow> pystr list" where
  "fallbacks name =
     [ascii ''Hey '' @ name @ ascii (''! How'' @ [CHR 0x27] @ ''s your evening going? '')
        @ [0xF0, 0x178, 0x2DC, 0x160],
      ascii ''Well hello there '' @ name @ ascii '' ''
        @ [0xF0, 0x178, 0x2DC, 0x2030]
        @ ascii '' What brings you to Tinder?'',
      name @ ascii (''! Love the vibe of your profile. What'' @ [CHR 0x27]
        @ ''s been the highlight of your week?''),
      ascii ''Hi '' @ name
        @ ascii ''! You seem interesting. Tell me something random about yourself?'',
      ascii ''Hey '' @ name @ ascii ('', fancy a chat? What'' @ [CHR 0x27]
        @ ''s your idea of a perfect Friday night?'')]"

definition generate_fallback :: "nat \<Rightarrow> pystr \<Rightarrow> pystr" where
  "generate_fallback pick name = fallbacks name ! (pick mod 5)"

text \<open>
  The usage file \<open>claude_usage.json\<close>: the two keys the tracker reads and writes, each
  possibly absent, and the other keys with their JSON text, which it keeps.
\<close>

record usage =
  total_tokens :: "int option"
  by_model :: "(string, int) dict option"
  other_keys :: "(string, string) dict"

definition empty_usage :: usage where
  "empty_usage = \<lparr>total_tokens = None, by_model = None, other_keys = []\<rparr>"

text \<open>
  \<open>_track_usage\<close>: the whole body is inside \<open>try\<close>; an unreadable file makes
  \<open>json.load\<close> raise before anything is written, and a failed write is swallowed too.
\<close>

definition track_usage :: "write_outcome \<Rightarrow> string \<Rightarrow> int \<Rightarrow> usage json_file \<Rightarrow> usage json_file" where
  "track_usage w model tokens f =
     (case f of
        Garbled \<Rightarrow> f
      | _ \<Rightarrow>
        (let usage = (case f of Stored u \<Rightarrow> u | _ \<Rightarrow> empty_usage);
             total = (case total_tokens usage of None \<Rightarrow> 0 | Some t \<Rightarrow> t) + tokens;
             models = (case by_model usage of None \<Rightarrow> [] | Some d \<Rightarrow> d);
             models' = dict_set model
                         ((case dict_get models model of None \<Rightarrow> 0 | Some n \<Rightarrow> n) + tokens) models
         in snd (write_json w (usage\<lparr>total_tokens := Some total, by_model := Some models'\<rparr>) f)))"

text \<open>
  The totals a usage file stands for: what \<open>usage.get("total_tokens", 0)\<close> and
  \<open>usage["by_model"].get(model, 0)\<close> read from it, and zero when there is no file or the
  file cannot be read.
\<close>

definition usage_total :: "usage json_file \<Rightarrow> int" where
  "usage_total f = (case f of Stored u \<Rightarrow> (case total_tokens u of None \<Rightarrow> 0 | Some t \<Rightarrow> t) | _ \<Rightarrow> 0)"

definition usage_by_model :: "usage json_file \<Rightarrow> string \<Rightarrow> int" where
  "usage_by_model f model =
     (case f of
        Stored u \<Rightarrow> (case by_model u of None \<Rightarrow> 0
                      | Some d \<Rightarrow> (case dict_get d model of None \<Rightarrow> 0 | Some n \<Rightarrow> n))
      | _ \<Rightarrow> 0)"

text \<open>
  The completion backend answers the \<open>n\<close>-th HTTP request of a generator with an exception
  (network error, time-out, HTTP error status, malformed body) or with a text and an
  optional \<open>usage.output_tokens\<close>. \<open>default_prompt\<close> is the default profile's
  \<open>system_prompt\<close> with the current date and time filled in; the other profiles of
  \<open>PERSONALITIES\<close> have no \<open>system_prompt\<close> key, so that their rendered prompt is empty.
  The state of a generator is the number of requests made, the usage file, and the
  requests themselves (system prompt and messages) in the order made.
\<close>

record api_response =
  reply_text :: pystr
  output_tokens :: "int option"

record gen_env =
  api_call :: "nat \<Rightarrow> pystr \<Rightarrow> message list \<Rightarrow> py_error + api_response"
  default_prompt :: pystr
  pick :: nat
  usage_write :: "nat \<Rightarrow> write_outcome"

record gen_state =
  calls :: nat
  usage_file :: "usage json_file"
  requests :: "(pystr \<times> message list) list"

definition model_name :: string where
  "model_name = ''claude-3-5-sonnet-20241022''"

definition call_claude ::
  "gen_env \<Rightarrow> pystr \<Rightarrow> message list \<Rightarrow> gen_state \<Rightarrow> (py_error + pystr) \<times> gen_state" where
  "call_claude env system_prompt msgs st =
     (let n = calls st;
          st1 = st\<lparr>calls := Suc n, requests := requests st @ [(system_prompt, msgs)]\<rparr>
      in case api_call env n system_prompt msgs of
           Inl e \<Rightarrow> (Inl e, st1)
         | Inr result \<Rightarrow>
             (let reply = py_strip (reply_text result);
                  tokens = (case output_tokens result of
                              Some t \<Rightarrow> t | None \<Rightarrow> int (length (py_split reply)))
              in (Inr reply,
                  st1\<lparr>usage_file := track_usage (usage_write env n) model_name tokens (usage_file st1)\<rparr>)))"

definition other_personalities :: "string list" where
  "other_personalities = [''flirty'', ''funny'', ''gentle'', ''dominant'', ''casual'']"

definition system_prompt_for :: "gen_env \<Rightarrow> string \<Rightarrow> pystr" where
  "system_prompt_for env personality =
     (if personality \<in> set other_personalities then [] else default_prompt env)"

definition opener_prompt :: "pystr \<Rightarrow> pystr \<Rightarrow> message" where
  "opener_prompt name bio =
     \<lparr>role = Some ''user'',
      content = Some (ascii ''You matched with '' @ name @ ascii ''. ''
                      @ (if bio \<noteq> [] then ascii ''Their bio says: '' @ bio
                         else ascii ''No bio provided.'')
                      @ ascii ''. ''
                      @ ascii ''Write a flirty, engaging opening message that will get a response.''),
      timestamp = None\<rparr>"

definition media_prompt :: "pystr \<Rightarrow> message" where
  "media_prompt name =
     \<lparr>role = Some ''user'',
      content = Some (name @ ascii '' just sent a photo/GIF. Respond flirtatiously about it.''),
      timestamp = None\<rparr>"

definition media_words :: "pystr list" where
  "media_words = map ascii [''gif'', ''image'', ''photo'', ''picture'', ''selfie'']"

definition mentions_media :: "message \<Rightarrow> bool" where
  "mentions_media m =
     list_ex (\<lambda>word. py_in word (py_lower (case content m of None \<Rightarrow> [] | Some c \<Rightarrow> c))) media_words"

text \<open>
  \<open>_build_messages\<close>, in its three steps: the last ten turns of the history; the opener
  prompt when at most two turns are there; the media instruction when the last message
  of the list built so far mentions media.
\<close>

definition recent_history :: "message list \<Rightarrow> message list" where
  "recent_history chat_history = drop (length chat_history - 10) chat_history"

definition with_opener :: "pystr \<Rightarrow> pystr \<Rightarrow> message list \<Rightarrow> message list" where
  "with_opener name bio chat_history =
     (let msgs = recent_history chat_history
      in if msgs = [] \<or> length msgs \<le> 2 then msgs @ [opener_prompt name bio] else msgs)"

definition build_messages :: "pystr \<Rightarrow> pystr \<Rightarrow> message list \<Rightarrow> message list" where
  "build_messages name bio chat_history =
     (let msgs = with_opener name bio chat_history
      in if msgs \<noteq> [] \<and> mentions_media (last msgs) then msgs @ [media_prompt name] else msgs)"

text \<open>
  The loop of \<open>generate_reply\<close>: \<open>k\<close> attempts are left. An exception anywhere in the
  attempt, also in the retry after a refusal, ends the attempt; the system prompt the
  retry has set stays for the attempts that follow. The sleep between attempts changes
  nothing here.
\<close>

fun attempts ::
  "gen_env \<Rightarrow> pystr \<Rightarrow> message list \<Rightarrow> nat \<Rightarrow> pystr \<Rightarrow> gen_state \<Rightarrow> pystr \<times> gen_state" where
  "attempts env name msgs 0 system_prompt st = (generate_fallback (pick env) name, st)"
| "attempts env name msgs (Suc k) system_prompt st =
     (case call_claude env system_prompt msgs st of
        (Inl e, st1) \<Rightarrow> attempts env name msgs k system_prompt st1
      | (Inr reply, st1) \<Rightarrow>
          if is_refusal reply then
            (let flirty_prompt = system_prompt_for env ''flirty''
             in case call_claude env flirty_prompt msgs st1 of
                  (Inl e, st2) \<Rightarrow> attempts env name msgs k flirty_prompt st2
                | (Inr reply2, st2) \<Rightarrow>
                    (sanitize_reply (if is_refusal reply2
                                     then generate_fallback (pick env) name else reply2), st2))
          else (sanitize_reply reply, st1))"

definition generate_reply ::
  "gen_env \<Rightarrow> pystr \<Rightarrow> pystr \<Rightarrow> message list \<Rightarrow> string \<Rightarrow> gen_state \<Rightarrow> pystr \<times> gen_state" where
  "generate_reply env name bio chat_history personality st =
     attempts env name (build_messages name bio chat_history) 3
       (system_prompt_for env personality) st"

text \<open>The claim about the media instruction, in the words of the specification.\<close>

definition newest_inbound_mentions_media :: "message list \<Rightarrow> bool" where
  "newest_inbound_mentions_media chat_history =
     (let inbound = filter (\<lambda>m. role m = Some ''user'') chat_history
      in inbound \<noteq> [] \<and> mentions_media (last inbound))"

definition media_instruction_appended :: "pystr \<Rightarrow> pystr \<Rightarrow> message list \<Rightarrow> bool" where
  "media_instruction_appended name bio chat_history =
     (build_messages name bio chat_history = with_opener name bio chat_history @ [media_prompt name])"

text \<open>
  The claim about stage directions, in the words of the specification: an
  asterisk-delimited span (an asterisk, one or more characters other than an asterisk, an
  asterisk) occurs in the text.
\<close>

fun has_span :: "pystr \<Rightarrow> bool" where
  "has_span [] = False"
| "has_span (c # cs) =
     ((c = asterisk \<and> takeWhile (\<lambda>x. x \<noteq> asterisk) cs \<noteq> []
         \<and> dropWhile (\<lambda>x. x \<noteq> asterisk) cs \<noteq> [])
      \<or> has_span cs)"

text \<open>
  The claim about whitespace, in the words of the specification: the text neither begins
  nor ends with whitespace, and each whitespace character in it is one space followed by
  a character that is not whitespace.
\<close>

fun spaced_ok :: "pystr \<Rightarrow> bool" where
  "spaced_ok [] = True"
| "spaced_ok [c] = (\<not> is_space c)"
| "spaced_ok (c # d # s) = ((\<not> is_space c \<or> (c = 0x20 \<and> \<not> is_space d)) \<and> spaced_ok (d # s))"

definition single_spaced :: "pystr \<Rightarrow> bool" where
  "single_spaced r = ((r = [] \<or> \<not> is_space (hd r)) \<and> spaced_ok r)"

section \<open>core/message\_handler.py: MessageHandler\<close>

text \<open>
  A match as the API client delivers it: a dictionary read with \<open>match.get\<close>, so every
  key may be absent.
\<close>

record match =
  match_id :: "string option"
  name :: "pystr option"
  bio :: "pystr option"
  messages :: "message list option"

record log_entry =
  log_match_id :: "string option"
  user_name :: pystr
  user_msg :: pystr
  bot_reply :: pystr
  log_timestamp :: string
  log_personality :: string
  auto :: bool
  sent :: "bool option"

text \<open>
  A line of \<open>chat_log.json\<close>: an entry as \<open>_save_to_chat_log\<close> appends it, or a line that
  \<open>json.loads\<close> does not read as such (a line cut short, say), which the loader skips.
\<close>

datatype log_line = Unparsable | Logged log_entry

text \<open>
  What a pass reads from outside the handler: the API client (\<open>get_matches\<close>, and the
  typing delay followed by \<open>send_message\<close> as \<open>sink\<close>), the reply generator, the
  configuration, the clock, whether the two log files can be appended to, and the optional
  \<open>socketio\<close>, whose \<open>emit\<close> returns \<open>False\<close> here when it raises. An \<open>Inl\<close> is a raised
  exception.
\<close>

record pipeline_env =
  get_matches :: "py_error + match list"
  generate :: "pystr \<Rightarrow> pystr \<Rightarrow> message list \<Rightarrow> string \<Rightarrow> py_error + pystr"
  sink :: "string option \<Rightarrow> pystr \<Rightarrow> py_error + bool"
  personality :: string
  auto_approve :: bool
  now :: "nat \<Rightarrow> string"
  chat_log_writable :: bool
  auto_approved_writable :: bool
  socketio :: "(log_entry \<Rightarrow> bool) option"

text \<open>
  The handler: the set \<open>processed_messages\<close> of the object and the two log files on disk,
  together with the history of the calls made to the generator and to \<open>_send_reply\<close>.
\<close>

record handler =
  processed_messages :: "string set"
  chat_log_file :: "log_line list"
  auto_approved_file :: "log_entry list"
  generator_calls :: "(pystr \<times> pystr \<times> message list \<times> string) list"
  send_calls :: "(string option \<times> pystr) list"

text \<open>
  \<open>_load_processed_messages\<close>: one id for each line of the chat log that can be read, made
  of the entry's \<open>match_id\<close> and the entry's \<open>timestamp\<close>, which is the clock time at
  which the entry was made. Reading may fail after some lines (\<open>Some n\<close>, with \<open>Some 0\<close>
  for a file that cannot be opened); the ids read so far stay. A file that does not exist
  is the empty list of lines.
\<close>

fun line_ids :: "log_line \<Rightarrow> string list" where
  "line_ids Unparsable = []"
| "line_ids (Logged entry) = [py_str (log_match_id entry) @ ''_'' @ log_timestamp entry]"

definition load_processed_messages :: "nat option \<Rightarrow> log_line list \<Rightarrow> string set" where
  "load_processed_messages read_failure file =
     set (concat (map line_ids (case read_failure of None \<Rightarrow> file | Some n \<Rightarrow> take n file)))"

text \<open>
  \<open>MessageHandler()\<close>: a new handler object over the files on disk, as the start of the
  process makes it. \<open>restarted\<close> is the handler of a process started when the files and
  the call history are those that the handler \<open>h\<close> has left.
\<close>

definition new_handler ::
  "nat option \<Rightarrow> log_line list \<Rightarrow> log_entry list \<Rightarrow> handler" where
  "new_handler read_failure chat_log auto_approved_log =
     \<lparr>processed_messages = load_processed_messages read_failure chat_log,
      chat_log_file = chat_log, auto_approved_file = auto_approved_log,
      generator_calls = [], send_calls = []\<rparr>"

definition restarted :: "nat option \<Rightarrow> handler \<Rightarrow> handler" where
  "restarted read_failure h =
     (new_handler read_failure (chat_log_file h) (auto_approved_file h))
       \<lparr>generator_calls := generator_calls h, send_calls := send_calls h\<rparr>"

definition send_reply :: "pipeline_env \<Rightarrow> string option \<Rightarrow> pystr \<Rightarrow> bool" where
  "send_reply env mid msg = (case sink env mid msg of Inl e \<Rightarrow> False | Inr ok \<Rightarrow> ok)"

definition save_to_chat_log :: "pipeline_env \<Rightarrow> log_entry \<Rightarrow> handler \<Rightarrow> handler" where
  "save_to_chat_log env entry h =
     (if chat_log_writable env then h\<lparr>chat_log_file := chat_log_file h @ [Logged entry]\<rparr> else h)"

definition save_to_auto_approved :: "pipeline_env \<Rightarrow> log_entry \<Rightarrow> handler \<Rightarrow> handler" where
  "save_to_auto_approved env entry h =
     (if auto_approved_writable env
      then h\<lparr>auto_approved_file := auto_approved_file h @ [entry]\<rparr> else h)"

definition user_messages :: "match \<Rightarrow> message list" where
  "user_messages m =
     filter (\<lambda>x. role x = Some ''user'') (case messages m of None \<Rightarrow> [] | Some ms \<Rightarrow> ms)"

definition msg_id :: "match \<Rightarrow> string" where
  "msg_id m =
     py_str (match_id m) @ ''_''
       @ (case timestamp (last (user_messages m)) of None \<Rightarrow> [] | Some t \<Rightarrow> t)"

definition generator_args :: "pipeline_env \<Rightarrow> match \<Rightarrow> pystr \<times> pystr \<times> message list \<times> string" where
  "generator_args env m =
     ((case name m of None \<Rightarrow> ascii ''Unknown'' | Some n \<Rightarrow> n),
      (case bio m of None \<Rightarrow> [] | Some b \<Rightarrow> b),
      (case messages m of None \<Rightarrow> [] | Some ms \<Rightarrow> ms),
      personality env)"

definition generated_reply :: "pipeline_env \<Rightarrow> match \<Rightarrow> py_error + pystr" where
  "generated_reply env m =
     (case generator_args env m of (uname, ubio, history, pers) \<Rightarrow> generate env uname ubio history pers)"

text \<open>
  The body of the loop over the matches, on the list \<open>processed\<close> built so far and the
  handler. An exception in the body ends the work on this match (\<open>except ... continue\<close>).
\<close>

definition process_match ::
  "pipeline_env \<Rightarrow> match \<Rightarrow> log_entry list \<times> handler \<Rightarrow> log_entry list \<times> handler" where
  "process_match env m ps =
     (let (processed, h) = ps;
          msgs = (case messages m of None \<Rightarrow> [] | Some ms \<Rightarrow> ms)
      in if msgs = [] then ps
         else if user_messages m = [] then ps
         else if msg_id m \<in> processed_messages h then ps
         else
           (let (uname, ubio, history, pers) = generator_args env m;
                h1 = h\<lparr>generator_calls := generator_calls h @ [generator_args env m]\<rparr>
            in case generated_reply env m of
                 Inl e \<Rightarrow> (processed, h1)
               | Inr reply \<Rightarrow>
                   (let entry = \<lparr>log_match_id = match_id m, user_name = uname,
                                 user_msg = (case content (last (user_messages m)) of
                                               None \<Rightarrow> [] | Some c \<Rightarrow> c),
                                 bot_reply = reply,
                                 log_timestamp = now env (length (generator_calls h)),
                                 log_personality = pers, auto = auto_approve env,
                                 sent = None\<rparr>;
                        (entry1, h2) =
                          (if auto_approve env then
                             (let h' = h1\<lparr>send_calls := send_calls h1 @ [(match_id m, reply)]\<rparr>
                              in if send_reply env (match_id m) reply
                                 then (entry\<lparr>sent := Some True\<rparr>,
                                       save_to_auto_approved env (entry\<lparr>sent := Some True\<rparr>) h')
                                 else (entry, h'))
                           else (entry, h1));
                        h3 = h2\<lparr>processed_messages := insert (msg_id m) (processed_messages h2)\<rparr>;
                        h4 = save_to_chat_log env entry1 h3
                    in case socketio env of
                         None \<Rightarrow> (processed @ [entry1], h4)
                       | Some emit \<Rightarrow>
                           if emit entry1 then (processed @ [entry1], h4) else (processed, h4))))"

definition process_new_messages :: "pipeline_env \<Rightarrow> handler \<Rightarrow> log_entry list \<times> handler" where
  "process_new_messages env h =
     (case get_matches env of
        Inl e \<Rightarrow> ([], h)
      | Inr matches \<Rightarrow> if matches = [] then ([], h) else fold (process_match env) matches ([], h))"

text \<open>
  The states one handler object goes through: \<open>after_steps\<close> is the handler after the
  loop body has run for each of the given matches in turn, each in its environment, and
  \<open>after_passes\<close> the handler after one pass in each of the given environments.
\<close>

definition after_steps :: "(pipeline_env \<times> match) list \<Rightarrow> handler \<Rightarrow> handler" where
  "after_steps steps h = fold (\<lambda>(env, m) h'. snd (process_match env m ([], h'))) steps h"

definition after_passes :: "pipeline_env list \<Rightarrow> handler \<Rightarrow> handler" where
  "after_passes envs h = fold (\<lambda>env h'. snd (process_new_messages env h')) envs h"

section \<open>Sample inputs\<close>

definition sample_manager :: data_manager where
  "sample_manager =
     \<lparr>replied_messages = [], rejected_matches = {},
      conversation_cache = map (\<lambda>n. (replicate n (CHR ''a''), [])) [0..<100],
      replied_file = Missing, rejected_file = Missing, conversation_cache_file = Missing\<rparr>"

definition rejecting_manager :: data_manager where
  "rejecting_manager =
     \<lparr>replied_messages = [], rejected_matches = {''C1''}, conversation_cache = [],
      replied_file = Missing, rejected_file = Stored {''C1''}, conversation_cache_file = Missing\<rparr>"

definition hey :: message where
  "hey = \<lparr>role = Some ''user'', content = Some (ascii ''hey!''), timestamp = Some ''T1''\<rparr>"

definition conversation_C1 :: match where
  "conversation_C1 =
     \<lparr>match_id = Some ''C1'', name = Some (ascii ''Ann''), bio = None, messages = Some [hey]\<rparr>"

definition fresh_handler :: handler where
  "fresh_handler =
     \<lparr>processed_messages = {}, chat_log_file = [], auto_approved_file = [],
      generator_calls = [], send_calls = []\<rparr>"

definition sample_env :: "bool \<Rightarrow> pipeline_env" where
  "sample_env delivered =
     \<lparr>get_matches = Inr [conversation_C1],
      generate = (\<lambda>n b hist p. Inr (ascii ''Hi there'')),
      sink = (\<lambda>mid msg. Inr delivered),
      personality = ''default'', auto_approve = True, now = (\<lambda>n. ''2024-01-01T00:00:00+00:00''),
      chat_log_writable = True, auto_approved_writable = True, socketio = None\<rparr>"

definition backend :: "pystr list \<Rightarrow> gen_env" where
  "backend answers =
     \<lparr>api_call = (\<lambda>n prompt msgs.
                    if n < length answers
                    then Inr \<lparr>reply_text = answers ! n, output_tokens = None\<rparr>
                    else Inl RequestError),
      default_prompt = ascii ''Your name is Josh.'', pick = 0, usage_write = (\<lambda>n. Written)\<rparr>"

definition apology :: pystr where
  "apology = ascii (''I'' @ [CHR 0x27] @ ''m sorry, not tonight.'')"

definition emphatic_apology :: pystr where
  "emphatic_apology = ascii (''I'' @ [CHR 0x27] @ ''m *so* sorry, not tonight.'')"

definition fresh_generator :: gen_state where
  "fresh_generator = \<lparr>calls = 0, usage_file = Missing, requests = []\<rparr>"

definition user_turn :: "string \<Rightarrow> message" where
  "user_turn c = \<lparr>role = Some ''user'', content = Some (ascii c), timestamp = None\<rparr>"

definition assistant_turn :: "string \<Rightarrow> message" where
  "assistant_turn c = \<lparr>role = Some ''assistant'', content = Some (ascii c), timestamp = None\<rparr>"

definition sample_history :: "message list" where
  "sample_history =
     [user_turn ''hello'', assistant_turn ''hi'', user_turn ''my photo'', assistant_turn ''nice'']"

section \<open>Dictionaries\<close>

lemma dict_get_set_same: "dict_get (dict_set k v d) k = Some v"
  by (induction d) (auto simp: dict_get_def)

lemma dict_get_set_other: "k' \<noteq> k \<Longrightarrow> dict_get (dict_set k v d) k' = dict_get d k'"
  by (induction d) (auto simp: dict_get_def)

lemma dict_keys_set: "set (dict_keys (dict_set k v d)) = insert k (set (dict_keys d))"
  by (induction d) (auto simp: dict_keys_def)

lemma dict_set_present: "k \<in> set (dict_keys d) \<Longrightarrow> length (dict_set k v d) = length d"
  by (induction d) (auto simp: dict_keys_def)

lemma dict_set_absent: "k \<notin> set (dict_keys d) \<Longrightarrow> dict_set k v d = d @ [(k, v)]"
  by (induction d) (auto simp: dict_keys_def)

lemma dict_set_length: "length (dict_set k v d) \<le> Suc (length d)"
  by (induction d) auto

lemma dict_keys_set_list:
  "dict_keys (dict_set k v d) = (if k \<in> set (dict_keys d) then dict_keys d else dict_keys d @ [k])"
  by (induction d) (auto simp: dict_keys_def)

lemma well_formed_set: "well_formed d \<Longrightarrow> well_formed (dict_set k v d)"
  by (simp add: well_formed_def dict_keys_set_list)

section \<open>The conversation cache\<close>


lemma fold_dict_del: "fold dict_del ks d = filter (\<lambda>p. fst p \<notin> set ks) d"
proof (induction ks arbitrary: d)
  case Nil
  then show ?case by simp
next
  case (Cons k ks)
  have "fold dict_del (k # ks) d = fold dict_del ks (dict_del k d)" by simp
  also have "\<dots> = filter (\<lambda>p. fst p \<notin> set ks) (dict_del k d)" by (rule Cons.IH)
  also have "\<dots> = filter (\<lambda>p. fst p \<notin> set (k # ks)) d"
    unfolding dict_del_def filter_filter by (rule filter_cong) auto
  finally show ?case .
qed

lemma length_filter_keys:
  assumes "distinct (dict_keys d)" and "distinct ks" and "set ks \<subseteq> set (dict_keys d)"
  shows "length (filter (\<lambda>p. fst p \<notin> set ks) d) = length d - length ks"
proof -
  have "length (filter (\<lambda>p. fst p \<notin> set ks) d) = length (filter (\<lambda>k. k \<notin> set ks) (dict_keys d))"
    unfolding dict_keys_def filter_map by (simp add: comp_def)
  also have "\<dots> = card ({k. k \<notin> set ks} \<inter> set (dict_keys d))"
    using assms(1) by (rule distinct_length_filter)
  also have "{k. k \<notin> set ks} \<inter> set (dict_keys d) = set (dict_keys d) - set ks"
    by auto
  also have "card (set (dict_keys d) - set ks) = card (set (dict_keys d)) - card (set ks)"
    using assms(3) by (simp add: card_Diff_subset)
  also have "\<dots> = length d - length ks"
    using distinct_card[of "map fst d"] distinct_card[of ks] assms(1,2)
    by (simp add: dict_keys_def)
  finally show ?thesis .
qed

lemma oldest_props:
  "distinct (dict_keys d) \<Longrightarrow> distinct (oldest d)"
  "set (oldest d) \<subseteq> set (dict_keys d)"
  "length (oldest d) = min 20 (length d)"
  by (auto simp: oldest_def dict_keys_def dest: in_set_takeD)

lemma oldest_smallest:
  assumes "a \<in> set (oldest d)" and "b \<in> set (dict_keys d)" and "b \<notin> set (oldest d)"
  shows "a < b"
proof -
  let ?s = "sort (dict_keys d)"
  have "sorted (take 20 ?s @ drop 20 ?s)" by simp
  moreover have "b \<in> set (drop 20 ?s)"
  proof -
    have "b \<in> set (take 20 ?s @ drop 20 ?s)" using assms(2) by simp
    with assms(3) show ?thesis unfolding oldest_def by (metis Un_iff set_append)
  qed
  ultimately have "a \<le> b" using assms(1) unfolding oldest_def sorted_append by blast
  moreover have "a \<noteq> b" using assms(1,3) by auto
  ultimately show ?thesis by simp
qed

lemma evict_eq:
  "evict d = (if length d > 100 then filter (\<lambda>p. fst p \<notin> set (oldest d)) d else d)"
  by (simp add: evict_def fold_dict_del)

lemma evict_length:
  assumes "well_formed d"
  shows "length (evict d) = (if length d > 100 then length d - 20 else length d)"
  using assms length_filter_keys[of d "oldest d"] oldest_props[of d]
  by (auto simp: evict_eq well_formed_def)

lemma evict_well_formed: "well_formed d \<Longrightarrow> well_formed (evict d)"
  by (auto simp: evict_eq well_formed_def dict_keys_def distinct_map_filter)

lemma cache_conversation_cache:
  "conversation_cache (snd (cache_conversation w k ms dm)) = evict (dict_set k ms (conversation_cache dm))"
  by (simp add: cache_conversation_def Let_def split: prod.splits)

lemma cache_conversation_file:
  "conversation_cache_file (snd (cache_conversation Written k ms dm)) = Stored (evict (dict_set k ms (conversation_cache dm)))"
  by (simp add: cache_conversation_def Let_def split: prod.splits)

lemma cache_conversation_invariant:
  assumes "well_formed (conversation_cache dm)" and "length (conversation_cache dm) \<le> 100"
  shows "well_formed (conversation_cache (snd (cache_conversation w k ms dm)))"
    and "length (conversation_cache (snd (cache_conversation w k ms dm))) \<le> 100"
proof -
  let ?c = "dict_set k ms (conversation_cache dm)"
  have wf: "well_formed ?c" using assms(1) by (rule well_formed_set)
  have "length ?c \<le> 101"
    using dict_set_length [of k ms "conversation_cache dm"] assms(2) by simp
  then have "length (evict ?c) \<le> 100"
    using evict_length [OF wf] by auto
  then show "length (conversation_cache (snd (cache_conversation w k ms dm))) \<le> 100"
    by (simp add: cache_conversation_cache)
  show "well_formed (conversation_cache (snd (cache_conversation w k ms dm)))"
    using wf by (simp add: cache_conversation_cache evict_well_formed)
qed

text \<open>
  From the empty cache of a first start, any sequence of \<open>cache_conversation\<close> calls, with
  any outcome of the writes, keeps the cache at 100 conversations or fewer.
\<close>

lemma cache_bounded_after_calls:
  assumes "well_formed (conversation_cache dm)" and "length (conversation_cache dm) \<le> 100"
  shows "length (conversation_cache
           (fold (\<lambda>(w, k, ms) d. snd (cache_conversation w k ms d)) cs dm)) \<le> 100"
  using assms
proof (induction cs arbitrary: dm)
  case Nil
  then show ?case by simp
next
  case (Cons c cs)
  obtain w k ms where c: "c = (w, k, ms)" by (cases c)
  show ?case
    using Cons.IH [of "snd (cache_conversation w k ms dm)"]
      cache_conversation_invariant [OF Cons.prems, of w k ms]
    by (simp add: c)
qed

lemma cache_bounded_from_empty:
  "conversation_cache dm = [] \<Longrightarrow>
   length (conversation_cache
     (fold (\<lambda>(w, k, ms) d. snd (cache_conversation w k ms d)) cs dm)) \<le> 100"
  by (rule cache_bounded_after_calls) (simp_all add: well_formed_def dict_keys_def)

text \<open>
  Claim C10. A call of \<open>cache_conversation\<close> on a cache of at most 100 conversations
  leaves at most 100: the cache after the call is the one that is persisted; when the
  insertion has made 101 entries, the 20 smallest keys in sorted order are the ones
  deleted, every one of them below every key that stays, and 81 entries stay.
\<close>

theorem cache_conversation_bounded:
  assumes "well_formed (conversation_cache dm)" and "length (conversation_cache dm) \<le> 100"
  shows "let c = dict_set k ms (conversation_cache dm);
             dm' = snd (cache_conversation w k ms dm);
             c' = conversation_cache dm'
         in length c' \<le> 100 \<and> well_formed c' \<and>
            (w = Written \<longrightarrow> conversation_cache_file dm' = Stored c') \<and>
            (length c \<le> 100 \<longrightarrow> c' = c) \<and>
            (length c > 100 \<longrightarrow>
               c' = filter (\<lambda>p. fst p \<notin> set (oldest c)) c \<and>
               length (oldest c) = 20 \<and> distinct (oldest c) \<and>
               set (oldest c) \<subseteq> set (dict_keys c) \<and>
               (\<forall>a \<in> set (oldest c). \<forall>b \<in> set (dict_keys c'). a < b) \<and>
               length c' = length c - 20)"
proof -
  define c where "c = dict_set k ms (conversation_cache dm)"
  have wf: "well_formed c" unfolding c_def using assms(1) by (rule well_formed_set)
  have len: "length c \<le> 101" unfolding c_def using dict_set_length[of k ms "conversation_cache dm"] assms(2) by simp
  have c': "conversation_cache (snd (cache_conversation w k ms dm)) = evict c"
    unfolding c_def by (rule cache_conversation_cache)
  have 1: "length (evict c) \<le> 100" using evict_length[OF wf] len by auto
  have 2: "well_formed (evict c)" using wf by (rule evict_well_formed)
  have 3: "w = Written \<longrightarrow> conversation_cache_file (snd (cache_conversation w k ms dm)) = Stored (evict c)"
    unfolding c_def by (auto simp: cache_conversation_file)
  have 4: "length c \<le> 100 \<longrightarrow> evict c = c" by (simp add: evict_eq)
  have 5: "length c > 100 \<longrightarrow> evict c = filter (\<lambda>p. fst p \<notin> set (oldest c)) c" by (simp add: evict_eq)
  have 6: "length c > 100 \<longrightarrow> length (oldest c) = 20 \<and> distinct (oldest c) \<and> set (oldest c) \<subseteq> set (dict_keys c)"
    using oldest_props[of c] wf by (auto simp: well_formed_def)
  have 7: "length c > 100 \<longrightarrow> (\<forall>a \<in> set (oldest c). \<forall>b \<in> set (dict_keys (evict c)). a < b)"
  proof (intro impI ballI)
    fix a b assume "length c > 100" "a \<in> set (oldest c)" "b \<in> set (dict_keys (evict c))"
    then have "b \<in> set (dict_keys c)" "b \<notin> set (oldest c)"
      by (auto simp: evict_eq dict_keys_def)
    with \<open>a \<in> set (oldest c)\<close> show "a < b" using oldest_smallest[of a c b] by blast
  qed
  have 8: "length c > 100 \<longrightarrow> length (evict c) = length c - 20" using evict_length[OF wf] by simp
  show ?thesis
    unfolding Let_def c_def[symmetric] c' using 1 2 3 4 5 6 7 8 by blast
qed

theorem cache_conversation_bounded_witness:
  "well_formed (conversation_cache sample_manager) \<and>
   length (conversation_cache sample_manager) \<le> 100 \<and>
   length (dict_set ''b'' [] (conversation_cache sample_manager)) > 100 \<and>
   length (conversation_cache (snd (cache_conversation Written ''b'' [] sample_manager))) = 81 \<and>
   conversation_cache_file (snd (cache_conversation Written ''b'' [] sample_manager)) =
     Stored (conversation_cache (snd (cache_conversation Written ''b'' [] sample_manager)))"
proof -
  have "inj_on (\<lambda>n. replicate n (CHR ''a'')) (set [0..<100])"
    by (rule inj_onI) (metis length_replicate)
  then have wf: "well_formed (conversation_cache sample_manager)"
    by (simp add: well_formed_def dict_keys_def sample_manager_def comp_def distinct_map)
  have len: "length (conversation_cache sample_manager) \<le> 100"
    by (simp add: sample_manager_def)
  have nb: "''b'' \<noteq> replicate n (CHR ''a'')" for n
    by (cases n) auto
  have "''b'' \<notin> set (dict_keys (conversation_cache sample_manager))"
    using nb by (auto simp: dict_keys_def sample_manager_def)
  then have big: "length (dict_set ''b'' [] (conversation_cache sample_manager)) = 101"
    by (simp add: dict_set_absent) (simp add: sample_manager_def)
  let ?c = "dict_set ''b'' [] (conversation_cache sample_manager)"
  let ?dm' = "snd (cache_conversation Written ''b'' [] sample_manager)"
  from cache_conversation_bounded [OF wf len, of "''b''" "[]" Written]
  have a: "length ?c > 100 \<longrightarrow> length (conversation_cache ?dm') = length ?c - 20"
    and b: "conversation_cache_file ?dm' = Stored (conversation_cache ?dm')"
    unfolding Let_def by blast+
  from a big have "length (conversation_cache ?dm') = 81" by simp
  with wf len big b show ?thesis by simp
qed

section \<open>The reply ledger of the data manager\<close>

text \<open>
  Claim C5. After \<open>mark_replied(c, t)\<close>, whether or not the write of the file raised,
  \<open>has_replied_to(c, t')\<close> holds exactly for \<open>t' = t\<close>; marking twice leaves
  \<open>has_replied_to(c, t)\<close> true.
\<close>

theorem mark_replied_has_replied:
  "has_replied_to (snd (mark_replied w c t dm)) c t' = (t' = t) \<and>
   has_replied_to (snd (mark_replied w2 c t (snd (mark_replied w1 c t dm)))) c t"
  by (auto simp: has_replied_to_def mark_replied_def Let_def dict_get_set_same split: prod.splits)

section \<open>The usage tracker\<close>

lemma track_usage_written:
  assumes "f \<noteq> Garbled"
  shows "\<exists>u d. track_usage Written m t f = Stored u
           \<and> total_tokens u = Some (usage_total f + t)
           \<and> by_model u = Some d
           \<and> dict_get d m = Some (usage_by_model f m + t)"
  using assms
  by (cases f)
     (auto simp: track_usage_def usage_total_def usage_by_model_def empty_usage_def Let_def
                 dict_get_set_same [unfolded dict_get_def] dict_get_def
           split: option.splits)

lemma track_usage_reads:
  assumes "f \<noteq> Garbled"
  shows "track_usage Written m t f \<noteq> Garbled"
    and "usage_total (track_usage Written m t f) = usage_total f + t"
    and "usage_by_model (track_usage Written m t f) m = usage_by_model f m + t"
  using track_usage_written [OF assms, of m t]
  by (auto simp: usage_total_def usage_by_model_def)

lemma usage_accumulation_readable:
  assumes "f \<noteq> Garbled"
  shows "\<exists>u d. track_usage Written ''model-a'' 5 (track_usage Written ''model-a'' 10 f) = Stored u
           \<and> by_model u = Some d
           \<and> dict_get d ''model-a'' = Some (usage_by_model f ''model-a'' + 15)
           \<and> total_tokens u = Some (usage_total f + 15)"
proof -
  let ?g = "track_usage Written ''model-a'' 10 f"
  have g: "?g \<noteq> Garbled" using assms by (rule track_usage_reads)
  from track_usage_written [OF g, of "''model-a''" 5]
  show ?thesis
    by (auto simp: track_usage_reads [OF assms] add.commute)
qed

text \<open>
  Claim C8 fails on a usage file that cannot be read, which the tracker itself leaves
  behind when a dump fails: the prior totals count as zero, yet two calls for \<open>model-a\<close>
  with 10 and with 5 tokens, both free to write, record nothing, and the totals stay at
  zero instead of 15.
\<close>

theorem usage_lost_when_unreadable:
  "track_usage DumpFailed ''model-a'' 10 Missing = Garbled
   \<and> usage_by_model Garbled ''model-a'' = 0 \<and> usage_total Garbled = 0
   \<and> track_usage Written ''model-a'' 5 (track_usage Written ''model-a'' 10 Garbled) = Garbled
   \<and> usage_by_model (track_usage Written ''model-a'' 5 (track_usage Written ''model-a'' 10 Garbled))
        ''model-a'' = 0
   \<and> usage_total (track_usage Written ''model-a'' 5 (track_usage Written ''model-a'' 10 Garbled)) = 0"
  by (simp add: track_usage_def usage_by_model_def usage_total_def empty_usage_def Let_def)

section \<open>Lower case and the search for words\<close>

text \<open>
  The program searches the lower-cased text for ASCII words only. Such a search does not
  see what a code point beyond ASCII has become: on any text that \<open>str.lower()\<close> can give,
  it finds what it finds on \<open>py_lower\<close>.
\<close>

lemma starts_with_beyond:
  "(w :: pystr) \<noteq> [] \<Longrightarrow> \<forall>d \<in> set w. d < 0x80 \<Longrightarrow> x \<noteq> [] \<Longrightarrow> \<forall>d \<in> set x. 0x80 \<le> d
   \<Longrightarrow> \<not> starts_with w (x @ a)"
  by (cases w; cases x) auto

lemma same_ascii_starts_with:
  "same_ascii a b \<Longrightarrow> \<forall>d \<in> set w. d < 0x80 \<Longrightarrow> starts_with w a = starts_with w b"
proof (induction arbitrary: w rule: same_ascii.induct)
  case 1
  show ?case by simp
next
  case (2 a b c)
  then show ?case by (cases w) auto
next
  case (3 a b x y)
  show ?case
  proof (cases "w = []")
    case True
    then show ?thesis by simp
  next
    case False
    then show ?thesis
      using 3 starts_with_beyond [of w x a] starts_with_beyond [of w y b] by simp
  qed
qed

lemma py_in_beyond:
  "(w :: pystr) \<noteq> [] \<Longrightarrow> \<forall>d \<in> set w. d < 0x80 \<Longrightarrow> \<forall>d \<in> set x. 0x80 \<le> d
   \<Longrightarrow> py_in w (x @ a) = py_in w a"
proof (induction x)
  case Nil
  show ?case by simp
next
  case (Cons c x)
  have "\<not> starts_with w ((c # x) @ a)"
    using Cons.prems by (intro starts_with_beyond) auto
  then show ?case
    using Cons by simp
qed

lemma same_ascii_py_in:
  "same_ascii a b \<Longrightarrow> w \<noteq> [] \<Longrightarrow> \<forall>d \<in> set w. d < 0x80 \<Longrightarrow> py_in w a = py_in w b"
proof (induction rule: same_ascii.induct)
  case 1
  show ?case by simp
next
  case (2 a b c)
  have "same_ascii (c # a) (c # b)"
    using 2 by (auto intro: same_ascii.intros)
  then have "starts_with w (c # a) = starts_with w (c # b)"
    using 2 by (intro same_ascii_starts_with) auto
  then show ?case
    using 2 by simp
next
  case (3 a b x y)
  then show ?case
    by (simp add: py_in_beyond)
qed

lemma same_ascii_prefix: "same_ascii a b \<Longrightarrow> same_ascii (z @ a) (z @ b)"
  by (induction z) (auto intro: same_ascii.intros)

lemma lowers_to_same_ascii:
  "list_all2 lowers_to s blocks \<Longrightarrow> same_ascii (concat blocks) (py_lower s)"
proof (induction rule: list_all2_induct)
  case Nil
  show ?case by (simp add: py_lower_def same_ascii.intros)
next
  case (Cons c s block blocks)
  have r: "same_ascii (concat blocks) (concat (map lower_char s))"
    using Cons by (simp add: py_lower_def)
  show ?case
  proof (cases "c < 0x80 \<or> c = 0x212A \<or> c = 0x130")
    case True
    then have "block = lower_char c"
      using Cons.hyps(1) by (simp add: lowers_to_def)
    then show ?thesis
      using same_ascii_prefix [OF r, of "lower_char c"] by (simp add: py_lower_def)
  next
    case False
    then have b: "block \<noteq> []" "\<forall>d \<in> set block. 0x80 \<le> d"
      using Cons.hyps(1) by (simp_all add: lowers_to_def)
    have l: "lower_char c = [c]" "0x80 \<le> c"
      using False by (simp_all add: lower_char_def)
    have "same_ascii (block @ concat blocks) ([c] @ concat (map lower_char s))"
      using r b l(2) by (intro same_ascii.intros) auto
    then show ?thesis
      using l(1) by (simp add: py_lower_def)
  qed
qed

lemma py_lower_search:
  assumes "list_all2 lowers_to s blocks" and "w \<noteq> []" and "\<forall>d \<in> set w. d < 0x80"
  shows "py_in w (concat blocks) = py_in w (py_lower s)"
  using same_ascii_py_in [OF lowers_to_same_ascii [OF assms(1)] assms(2,3)] .

lemma search_words_ascii:
  "w \<in> set (refusal_patterns @ media_words) \<Longrightarrow> w \<noteq> [] \<and> (\<forall>d \<in> set w. d < 0x80)"
proof -
  have "list_all (\<lambda>w. w \<noteq> [] \<and> list_all (\<lambda>d. d < 0x80) w) (refusal_patterns @ media_words)"
    by code_simp
  then show "w \<in> set (refusal_patterns @ media_words) \<Longrightarrow> w \<noteq> [] \<and> (\<forall>d \<in> set w. d < 0x80)"
    unfolding list_all_iff by blast
qed

lemma is_refusal_any_lower:
  assumes "list_all2 lowers_to s blocks"
  shows "list_ex (\<lambda>pattern. py_in pattern (concat blocks)) refusal_patterns = is_refusal s"
proof -
  have "py_in w (concat blocks) = py_in w (py_lower s)" if "w \<in> set refusal_patterns" for w
    using that search_words_ascii [of w] py_lower_search [OF assms, of w] by simp
  then show ?thesis
    unfolding is_refusal_def list_ex_iff by blast
qed

lemma mentions_media_any_lower:
  assumes "list_all2 lowers_to (case content m of None \<Rightarrow> [] | Some c \<Rightarrow> c) blocks"
  shows "list_ex (\<lambda>word. py_in word (concat blocks)) media_words = mentions_media m"
proof -
  have "py_in w (concat blocks) = py_in w (py_lower (case content m of None \<Rightarrow> [] | Some c \<Rightarrow> c))"
    if "w \<in> set media_words" for w
    using that search_words_ascii [of w] py_lower_search [OF assms, of w] by simp
  then show ?thesis
    unfolding mentions_media_def list_ex_iff by blast
qed

section \<open>Sanitizing a reply\<close>

lemma ascii_space: "ascii '' '' = [0x20]"
  by (simp add: ascii_def)

lemma ascii_dot: "ascii ''.'' = [0x2E]"
  by (simp add: ascii_def)

lemma space_is_space: "is_space 0x20"
  by (simp add: is_space_def)

lemma dot_no_space: "\<not> is_space 0x2E"
  by (simp add: is_space_def)

lemma split_from_words:
  "\<forall>c \<in> set w. \<not> is_space c \<Longrightarrow> x \<in> set (split_from w s) \<Longrightarrow> word x"
proof (induction s arbitrary: w)
  case Nil
  then show ?case by (cases "w = []") (auto simp: word_def list_all_iff)
next
  case (Cons c s)
  show ?case
  proof (cases "is_space c")
    case True
    then have "(x = w \<and> w \<noteq> []) \<or> x \<in> set (split_from [] s)"
      using Cons.prems(2) by (cases "w = []") auto
    then show ?thesis
      using Cons.IH [of "[]"] Cons.prems(1) by (auto simp: word_def list_all_iff)
  next
    case False
    then have "x \<in> set (split_from (w @ [c]) s)"
      using Cons.prems(2) by simp
    moreover have "\<forall>d \<in> set (w @ [c]). \<not> is_space d"
      using False Cons.prems(1) by simp
    ultimately show ?thesis
      using Cons.IH [of "w @ [c]"] by blast
  qed
qed

lemma py_split_words: "x \<in> set (py_split s) \<Longrightarrow> word x"
  unfolding py_split_def by (rule split_from_words) auto

lemma split_from_run:
  "\<forall>c \<in> set x. \<not> is_space c \<Longrightarrow> split_from w (x @ s) = split_from (w @ x) s"
  by (induction x arbitrary: w) auto

lemma split_join_words:
  "\<forall>x \<in> set ws. word x \<Longrightarrow> py_split (py_join [0x20] ws) = ws"
proof (induction "[0x20::int]" ws rule: py_join.induct)
  case 1
  then show ?case by (simp add: py_split_def)
next
  case (2 w)
  then have "split_from [] (w @ []) = split_from ([] @ w) []"
    by (intro split_from_run) (simp add: word_def list_all_iff)
  with 2 show ?case by (simp add: py_split_def word_def list_all_iff)
next
  case (3 w v ws)
  have w: "word w" using 3 by simp
  then have "split_from [] (w @ [0x20] @ py_join [0x20] (v # ws))
             = split_from ([] @ w) ([0x20] @ py_join [0x20] (v # ws))"
    by (intro split_from_run) (simp add: word_def list_all_iff)
  also have "\<dots> = w # split_from [] (py_join [0x20] (v # ws))"
    using w by (simp add: word_def list_all_iff space_is_space)
  also have "split_from [] (py_join [0x20] (v # ws)) = v # ws"
    using 3 by (simp add: py_split_def)
  finally show ?case by (simp add: py_split_def)
qed

lemma spaced_ok_word: "word w \<Longrightarrow> spaced_ok w"
  by (induction w rule: spaced_ok.induct) (auto simp: word_def list_all_iff)

lemma spaced_ok_word_space:
  "\<forall>c \<in> set w. \<not> is_space c \<Longrightarrow> r \<noteq> [] \<Longrightarrow> \<not> is_space (hd r) \<Longrightarrow> spaced_ok r
   \<Longrightarrow> spaced_ok (w @ 0x20 # r)"
proof (induction w)
  case Nil
  then show ?case by (cases r) auto
next
  case (Cons c w)
  then show ?case by (cases w) auto
qed

lemma join_words_shape:
  "\<forall>x \<in> set ws. word x \<Longrightarrow> ws \<noteq> []
   \<Longrightarrow> py_join [0x20] ws \<noteq> [] \<and> \<not> is_space (hd (py_join [0x20] ws)) \<and> spaced_ok (py_join [0x20] ws)"
proof (induction "[0x20::int]" ws rule: py_join.induct)
  case 1
  then show ?case by simp
next
  case (2 w)
  then show ?case by (cases w) (auto simp: spaced_ok_word, auto simp: word_def list_all_iff)
next
  case (3 w v ws)
  have w: "word w" using 3 by simp
  have r: "py_join [0x20] (v # ws) \<noteq> [] \<and> \<not> is_space (hd (py_join [0x20] (v # ws)))
             \<and> spaced_ok (py_join [0x20] (v # ws))"
    using 3 by simp
  have "spaced_ok (w @ 0x20 # py_join [0x20] (v # ws))"
    using w r by (intro spaced_ok_word_space) (auto simp: word_def list_all_iff)
  moreover have "\<not> is_space (hd (w @ 0x20 # py_join [0x20] (v # ws)))"
    using w by (cases w) (auto simp: word_def list_all_iff)
  ultimately show ?case by simp
qed

lemma single_spaced_join: "single_spaced (py_join [0x20] (py_split s))"
proof (cases "py_split s = []")
  case True
  then show ?thesis by (simp add: single_spaced_def)
next
  case False
  then show ?thesis
    using join_words_shape [of "py_split s"] py_split_words [of _ s]
    by (auto simp: single_spaced_def)
qed

lemma spaced_ok_last: "spaced_ok r \<Longrightarrow> r \<noteq> [] \<Longrightarrow> \<not> is_space (last r)"
  by (induction r rule: spaced_ok.induct) auto

lemma spaced_ok_dot: "spaced_ok r \<Longrightarrow> spaced_ok (r @ [0x2E])"
  by (induction r rule: spaced_ok.induct) (auto simp: dot_no_space)

lemma single_spaced_dot:
  assumes "single_spaced r"
  shows "single_spaced (r @ [0x2E])"
proof -
  have "spaced_ok (r @ [0x2E])"
    using assms by (simp only: single_spaced_def spaced_ok_dot)
  moreover have "\<not> is_space (hd (r @ [0x2E]))"
    using assms by (cases r) (simp_all add: single_spaced_def dot_no_space)
  ultimately show ?thesis by (simp only: single_spaced_def simp_thms)
qed

lemma py_strip_single_spaced: "single_spaced r \<Longrightarrow> py_strip r = r"
proof (cases r)
  case Nil
  then show ?thesis by (simp add: py_strip_def)
next
  case (Cons c cs)
  assume s: "single_spaced r"
  then have h: "\<not> is_space (hd r)" and l: "\<not> is_space (last r)"
    using Cons spaced_ok_last [of r] by (auto simp: single_spaced_def)
  have "dropWhile is_space r = r" using h Cons by simp
  moreover have "dropWhile is_space (rev r) = rev r"
    using l Cons by (simp only: dropWhile_eq_self_iff hd_rev simp_thms)
  ultimately show ?thesis by (simp add: py_strip_def)
qed

lemma sanitize_reply_eq:
  "sanitize_reply t =
     (let u = py_join [0x20] (py_split (strip_actions t))
      in if u \<noteq> [] \<and> last u \<notin> set (ascii ''.!?'') then u @ [0x2E] else u)"
proof -
  let ?u = "py_join [0x20] (py_split (strip_actions t))"
  have u: "single_spaced ?u" by (rule single_spaced_join)
  then have "py_strip ?u = ?u" "py_strip (?u @ [0x2E]) = ?u @ [0x2E]"
    by (auto intro: py_strip_single_spaced single_spaced_dot)
  moreover have "py_strip [] = []"
    by (simp add: py_strip_def)
  ultimately show ?thesis
    by (simp add: sanitize_reply_def Let_def ascii_space ascii_dot)
qed

lemma strip_actions_plain: "asterisk \<notin> set pre \<Longrightarrow> strip_actions (pre @ s) = pre @ strip_actions s"
  by (induction pre) auto

lemma strip_actions_span:
  assumes "mid \<noteq> []" and "asterisk \<notin> set mid"
  shows "strip_actions (asterisk # mid @ asterisk # post) = strip_actions post"
proof -
  have "takeWhile (\<lambda>x. x \<noteq> asterisk) (mid @ asterisk # post) = mid"
    using assms(2) by (subst takeWhile_append2) auto
  moreover have "dropWhile (\<lambda>x. x \<noteq> asterisk) (mid @ asterisk # post) = asterisk # post"
    using assms(2) by (subst dropWhile_append2) auto
  ultimately show ?thesis using assms(1) by simp
qed

text \<open>
  What holds of \<open>_sanitize_reply\<close> on every text: the result neither begins nor ends with
  whitespace and every whitespace run in it is one space; a result that is not empty ends
  in \<open>.\<close>, \<open>!\<close> or \<open>?\<close>; and the leftmost asterisk-delimited span of a text, one with no
  asterisk before it, leaves no trace in the result.
\<close>

lemma single_spaced_sanitize: "single_spaced (sanitize_reply t)"
  unfolding sanitize_reply_eq Let_def
  using single_spaced_join [of "strip_actions t"]
  by (auto intro: single_spaced_dot)

lemma sanitize_reply_ends:
  "sanitize_reply t = [] \<or> last (sanitize_reply t) \<in> set (ascii ''.!?'')"
  unfolding sanitize_reply_eq Let_def by (auto simp: ascii_def)

lemma sanitize_reply_leftmost_span:
  assumes "asterisk \<notin> set pre" and "mid \<noteq> []" and "asterisk \<notin> set mid"
  shows "sanitize_reply (pre @ asterisk # mid @ asterisk # post) = sanitize_reply (pre @ post)"
  using assms strip_actions_span [OF assms(2,3), of post]
  by (simp add: sanitize_reply_def strip_actions_plain del: strip_actions.simps)

lemma sanitize_reply_example:
  "sanitize_reply (ascii ''Hey *winks* how are you'') = ascii ''Hey how are you.''"
  by code_simp

text \<open>
  Claim C7 fails on a reply that holds an asterisk before the stage direction, as the
  bold face of Markdown does: the asterisks are paired from the left, so that of
  \<open>**Hey there** *winks* how are you\<close> the bold words are dropped and the stage direction
  \<open>*winks*\<close> is kept. The result then still holds an asterisk-delimited span; so it does
  for \<open>**a*b*\<close>.
\<close>

theorem sanitize_reply_leaves_span:
  "sanitize_reply (ascii ''**Hey there** *winks* how are you'') = ascii ''*winks* how are you.''
   \<and> has_span (sanitize_reply (ascii ''**Hey there** *winks* how are you''))
   \<and> sanitize_reply (ascii ''**a*b*'') = ascii ''*b*.''
   \<and> has_span (sanitize_reply (ascii ''**a*b*''))"
  by code_simp

section \<open>Building the model input\<close>

lemma recent_history_length: "length (recent_history hist) = min (length hist) 10"
  by (auto simp: recent_history_def)

lemma recent_history_last: "hist \<noteq> [] \<Longrightarrow> last (recent_history hist) = last hist"
  by (simp add: recent_history_def last_drop)

lemma recent_history_short: "length hist \<le> 2 \<Longrightarrow> recent_history hist = hist"
  by (simp add: recent_history_def)

lemma with_opener_last:
  "with_opener nm bg hist \<noteq> [] \<and>
   last (with_opener nm bg hist) = (if length hist \<le> 2 then opener_prompt nm bg else last hist)"
proof (cases "length hist \<le> 2")
  case True
  then show ?thesis
    by (simp add: with_opener_def recent_history_short Let_def)
next
  case False
  then have "hist \<noteq> []" "\<not> length (recent_history hist) \<le> 2"
    by (auto simp: recent_history_length)
  moreover from this have "recent_history hist \<noteq> []" by auto
  ultimately show ?thesis
    using False by (simp add: with_opener_def Let_def recent_history_last)
qed

text \<open>
  The message that \<open>_build_messages\<close> searches for a media keyword is the last one of the
  list built so far: the last turn of the history when the history has more than two
  turns, and otherwise the opener prompt that the step before has appended.
\<close>

lemma media_instruction_scans_last:
  "media_instruction_appended nm bg hist
   = mentions_media (if length hist \<le> 2 then opener_prompt nm bg else last hist)"
  using with_opener_last [of nm bg hist]
  by (simp add: media_instruction_appended_def build_messages_def Let_def)

text \<open>
  Claim C9 fails on a conversation of one or two turns: the opener prompt is appended
  before the search, so the newest inbound turn is not the message searched. A match
  whose only message is \<open>here is my selfie\<close> gets no media instruction, and a match with
  no message at all whose biography is \<open>Photographer\<close> gets one.
\<close>

theorem media_instruction_missed:
  "newest_inbound_mentions_media [user_turn ''here is my selfie'']
   \<and> \<not> media_instruction_appended (ascii ''Ann'') [] [user_turn ''here is my selfie'']
   \<and> \<not> newest_inbound_mentions_media []
   \<and> media_instruction_appended (ascii ''Ann'') (ascii ''Photographer'') []"
  by code_simp

section \<open>Generating a reply\<close>

lemma call_claude_returns:
  "api_call env (calls st) prompt msgs = Inr r \<Longrightarrow>
   fst (call_claude env prompt msgs st) = Inr (py_strip (reply_text r))
   \<and> calls (snd (call_claude env prompt msgs st)) = Suc (calls st)
   \<and> requests (snd (call_claude env prompt msgs st)) = requests st @ [(prompt, msgs)]"
  by (simp add: call_claude_def Let_def)

lemma call_claude_raises:
  "api_call env (calls st) prompt msgs = Inl e \<Longrightarrow>
   fst (call_claude env prompt msgs st) = Inl e
   \<and> calls (snd (call_claude env prompt msgs st)) = Suc (calls st)
   \<and> requests (snd (call_claude env prompt msgs st)) = requests st @ [(prompt, msgs)]"
  by (simp add: call_claude_def Let_def)

lemma attempts_refusal_then_reply:
  assumes "api_call env (calls st) prompt msgs = Inr r1"
    and "is_refusal (py_strip (reply_text r1))"
    and "api_call env (Suc (calls st)) (system_prompt_for env ''flirty'') msgs = Inr r2"
    and "\<not> is_refusal (py_strip (reply_text r2))"
  shows "fst (attempts env nm msgs (Suc k) prompt st) = sanitize_reply (py_strip (reply_text r2))
         \<and> calls (snd (attempts env nm msgs (Suc k) prompt st)) = calls st + 2
         \<and> requests (snd (attempts env nm msgs (Suc k) prompt st))
             = requests st @ [(prompt, msgs), (system_prompt_for env ''flirty'', msgs)]"
proof -
  obtain x st1 where c1: "call_claude env prompt msgs st = (x, st1)"
    by (cases "call_claude env prompt msgs st")
  with call_claude_returns [OF assms(1)]
  have x: "x = Inr (py_strip (reply_text r1))" and n1: "calls st1 = Suc (calls st)"
    and q1: "requests st1 = requests st @ [(prompt, msgs)]"
    by simp_all
  obtain y st2 where c2: "call_claude env (system_prompt_for env ''flirty'') msgs st1 = (y, st2)"
    by (cases "call_claude env (system_prompt_for env ''flirty'') msgs st1")
  from assms(3) n1 have "api_call env (calls st1) (system_prompt_for env ''flirty'') msgs = Inr r2"
    by simp
  from call_claude_returns [OF this] c2
  have y: "y = Inr (py_strip (reply_text r2))" and n2: "calls st2 = Suc (calls st1)"
    and q2: "requests st2 = requests st1 @ [(system_prompt_for env ''flirty'', msgs)]"
    by simp_all
  show ?thesis
    using c1 c2 x y n1 n2 q1 q2 assms(2,4) by (simp add: Let_def)
qed

text \<open>
  When the first completion is a refusal and the completion of the retry is not,
  \<open>generate_reply\<close> returns the second completion sanitized, after exactly two requests,
  the second of them with the prompt rendered from the \<open>flirty\<close> profile, which is empty.
\<close>

lemma flirty_prompt_empty: "system_prompt_for env ''flirty'' = []"
  by (simp add: system_prompt_for_def other_personalities_def)

lemma refusal_retry_returns_second:
  assumes "api_call env (calls st) (system_prompt_for env pers)
             (build_messages nm bg chat_history) = Inr r1"
    and "is_refusal (py_strip (reply_text r1))"
    and "api_call env (Suc (calls st)) [] (build_messages nm bg chat_history) = Inr r2"
    and "\<not> is_refusal (py_strip (reply_text r2))"
  shows "fst (generate_reply env nm bg chat_history pers st)
           = sanitize_reply (py_strip (reply_text r2))
         \<and> calls (snd (generate_reply env nm bg chat_history pers st)) = calls st + 2
         \<and> requests (snd (generate_reply env nm bg chat_history pers st))
             = requests st @ [(system_prompt_for env pers, build_messages nm bg chat_history),
                              ([], build_messages nm bg chat_history)]"
proof -
  have e: "(3::nat) = Suc 2"
    by simp
  note l = attempts_refusal_then_reply [unfolded flirty_prompt_empty, OF assms, of nm 2]
  show ?thesis
    unfolding generate_reply_def e by (rule l)
qed

text \<open>
  Claim C6 fails on a second completion that becomes a refusal when its stage direction
  is taken out: the completions are tested for refusals before they are sanitized and
  the sanitized text is not tested again. With \<open>I'm sorry, not tonight.\<close> refused first
  and \<open>I'm *so* sorry, not tonight.\<close>, which is no refusal, returned by the retry,
  \<open>generate_reply\<close> returns \<open>I'm sorry, not tonight.\<close>, the refusal text; so it does
  with \<open>As an AI.\<close> and \<open>As *x*an AI.\<close>. The retry itself goes out with an empty system
  prompt, the \<open>flirty\<close> profile having none, and not with an alternate profile.
\<close>

theorem refusal_text_returned:
  "is_refusal apology \<and> \<not> is_refusal emphatic_apology
   \<and> fst (generate_reply (backend [apology, emphatic_apology])
            (ascii ''Ann'') [] [] ''default'' fresh_generator) = apology
   \<and> map fst (requests (snd (generate_reply (backend [apology, emphatic_apology])
            (ascii ''Ann'') [] [] ''default'' fresh_generator)))
       = [ascii ''Your name is Josh.'', []]
   \<and> is_refusal (ascii ''As an AI.'') \<and> \<not> is_refusal (ascii ''As *x*an AI.'')
   \<and> fst (generate_reply (backend [ascii ''As an AI.'', ascii ''As *x*an AI.''])
            (ascii ''Ann'') [] [] ''default'' fresh_generator) = ascii ''As an AI.''"
  by code_simp

text \<open>
  When every backend call raises, \<open>generate_reply\<close> returns a fallback reply, which is
  never empty.
\<close>

lemma generate_fallback_nonempty: "generate_fallback p nm \<noteq> []"
proof -
  have "p mod 5 < 5" by simp
  then have "p mod 5 = 0 \<or> p mod 5 = 1 \<or> p mod 5 = 2 \<or> p mod 5 = 3 \<or> p mod 5 = 4"
    by arith
  then show ?thesis
    by (auto simp: generate_fallback_def fallbacks_def ascii_def)
qed

lemma attempts_all_raise:
  assumes "\<And>n prompt msgs. \<exists>e. api_call env n prompt msgs = Inl e"
  shows "fst (attempts env nm msgs k prompt st) = generate_fallback (pick env) nm"
proof (induction k arbitrary: st)
  case 0
  show ?case by simp
next
  case (Suc k)
  obtain e where "api_call env (calls st) prompt msgs = Inl e"
    using assms by blast
  then have "fst (call_claude env prompt msgs st) = Inl e"
    by (simp add: call_claude_def Let_def)
  then show ?case
    by (cases "call_claude env prompt msgs st") (simp add: Suc.IH)
qed

lemma generate_reply_all_raise:
  assumes "\<And>n prompt msgs. \<exists>e. api_call env n prompt msgs = Inl e"
  shows "fst (generate_reply env nm bg chat_history pers st)
           = generate_fallback (pick env) nm
         \<and> fst (generate_reply env nm bg chat_history pers st) \<noteq> []"
  using attempts_all_raise [OF assms] generate_fallback_nonempty
  by (simp add: generate_reply_def)

text \<open>
  Claim C3 fails on a completion that consists of a stage direction only: it is no
  refusal, sanitizing leaves nothing of it, and \<open>generate_reply\<close> returns the empty
  string instead of falling back.
\<close>

theorem generate_reply_empty:
  "fst (generate_reply (backend [ascii ''*winks*'']) (ascii ''Ann'') [] [] ''default'' fresh_generator) = []"
  by code_simp

section \<open>The message pipeline\<close>

lemma process_match_skip:
  "user_messages m = [] \<or> msg_id m \<in> processed_messages h \<Longrightarrow>
   process_match env m (p, h) = (p, h)"
  by (auto simp: process_match_def user_messages_def Let_def split: option.splits)

lemma process_match_raise:
  assumes "user_messages m \<noteq> []" and "msg_id m \<notin> processed_messages h"
    and "generated_reply env m = Inl e"
  shows "process_match env m (p, h)
         = (p, h\<lparr>generator_calls := generator_calls h @ [generator_args env m]\<rparr>)"
proof -
  have "(case messages m of None \<Rightarrow> [] | Some ms \<Rightarrow> ms) \<noteq> []"
    using assms(1) by (auto simp: user_messages_def)
  then show ?thesis
    using assms by (simp add: process_match_def Let_def split: prod.splits)
qed

lemma process_match_reply:
  assumes "user_messages m \<noteq> []" and "msg_id m \<notin> processed_messages h"
    and "generated_reply env m = Inr reply"
  shows "generator_calls (snd (process_match env m (p, h)))
           = generator_calls h @ [generator_args env m]"
    and "processed_messages (snd (process_match env m (p, h)))
           = insert (msg_id m) (processed_messages h)"
    and "send_calls (snd (process_match env m (p, h)))
           = send_calls h @ (if auto_approve env then [(match_id m, reply)] else [])"
    and "auto_approved_file (snd (process_match env m (p, h)))
           = auto_approved_file h @
             (if auto_approve env \<and> send_reply env (match_id m) reply \<and> auto_approved_writable env
              then [\<lparr>log_match_id = match_id m, user_name = fst (generator_args env m),
                     user_msg = (case content (last (user_messages m)) of None \<Rightarrow> [] | Some c \<Rightarrow> c),
                     bot_reply = reply, log_timestamp = now env (length (generator_calls h)),
                     log_personality = personality env, auto = True, sent = Some True\<rparr>]
              else [])"
    and "chat_log_file (snd (process_match env m (p, h)))
           = chat_log_file h @
             (if chat_log_writable env
              then [Logged \<lparr>log_match_id = match_id m, user_name = fst (generator_args env m),
                     user_msg = (case content (last (user_messages m)) of None \<Rightarrow> [] | Some c \<Rightarrow> c),
                     bot_reply = reply, log_timestamp = now env (length (generator_calls h)),
                     log_personality = personality env, auto = auto_approve env,
                     sent = (if auto_approve env \<and> send_reply env (match_id m) reply
                             then Some True else None)\<rparr>]
              else [])"
proof -
  have ne: "(case messages m of None \<Rightarrow> [] | Some ms \<Rightarrow> ms) \<noteq> []"
    using assms(1) by (auto simp: user_messages_def)
  show "generator_calls (snd (process_match env m (p, h)))
           = generator_calls h @ [generator_args env m]"
    using ne assms
    by (simp add: process_match_def Let_def save_to_chat_log_def save_to_auto_approved_def
             split: prod.splits option.splits)
  show "processed_messages (snd (process_match env m (p, h)))
           = insert (msg_id m) (processed_messages h)"
    using ne assms
    by (simp add: process_match_def Let_def save_to_chat_log_def save_to_auto_approved_def
             split: prod.splits option.splits)
  show "send_calls (snd (process_match env m (p, h)))
           = send_calls h @ (if auto_approve env then [(match_id m, reply)] else [])"
    using ne assms
    by (simp add: process_match_def Let_def save_to_chat_log_def save_to_auto_approved_def
             split: prod.splits option.splits)
  show "auto_approved_file (snd (process_match env m (p, h)))
           = auto_approved_file h @
             (if auto_approve env \<and> send_reply env (match_id m) reply \<and> auto_approved_writable env
              then [\<lparr>log_match_id = match_id m, user_name = fst (generator_args env m),
                     user_msg = (case content (last (user_messages m)) of None \<Rightarrow> [] | Some c \<Rightarrow> c),
                     bot_reply = reply, log_timestamp = now env (length (generator_calls h)),
                     log_personality = personality env, auto = True, sent = Some True\<rparr>]
              else [])"
    using ne assms
    by (simp add: process_match_def Let_def save_to_chat_log_def save_to_auto_approved_def
               generator_args_def
             split: prod.splits option.splits)
  show "chat_log_file (snd (process_match env m (p, h)))
           = chat_log_file h @
             (if chat_log_writable env
              then [Logged \<lparr>log_match_id = match_id m, user_name = fst (generator_args env m),
                     user_msg = (case content (last (user_messages m)) of None \<Rightarrow> [] | Some c \<Rightarrow> c),
                     bot_reply = reply, log_timestamp = now env (length (generator_calls h)),
                     log_personality = personality env, auto = auto_approve env,
                     sent = (if auto_approve env \<and> send_reply env (match_id m) reply
                             then Some True else None)\<rparr>]
              else [])"
    using ne assms
    by (simp add: process_match_def Let_def save_to_chat_log_def save_to_auto_approved_def
               generator_args_def
             split: prod.splits option.splits)
qed

lemma process_match_generator_calls:
  "generator_calls (snd (process_match env m (p, h)))
   = generator_calls h @
     (if user_messages m \<noteq> [] \<and> msg_id m \<notin> processed_messages h
      then [generator_args env m] else [])"
proof (cases "user_messages m = [] \<or> msg_id m \<in> processed_messages h")
  case True
  then show ?thesis
    using process_match_skip [of m h env p] by auto
next
  case False
  then show ?thesis
    using process_match_raise [of m h env _ p] process_match_reply(1) [of m h env _ p]
    by (cases "generated_reply env m") auto
qed

lemma process_new_messages_single:
  "get_matches env = Inr [m] \<Longrightarrow> process_new_messages env h = process_match env m ([], h)"
  by (simp add: process_new_messages_def)

text \<open>
  One handler object never forgets: the loop body only adds to \<open>processed_messages\<close>, and
  the rest of a pass and every later pass of the object are runs of the loop body.
\<close>

lemma process_match_keeps:
  "processed_messages h \<subseteq> processed_messages (snd (process_match env m (p, h)))"
proof (cases "user_messages m = [] \<or> msg_id m \<in> processed_messages h")
  case True
  then show ?thesis
    using process_match_skip [of m h env p] by auto
next
  case False
  then show ?thesis
    using process_match_raise [of m h env _ p] process_match_reply(2) [of m h env _ p]
    by (cases "generated_reply env m") auto
qed

lemma process_match_handler:
  "snd (process_match env m (p, h)) = snd (process_match env m ([], h))"
  by (simp add: process_match_def Let_def split: prod.splits sum.splits option.splits)

lemma after_steps_keeps:
  "processed_messages h \<subseteq> processed_messages (after_steps steps h)"
proof (induction steps arbitrary: h)
  case Nil
  show ?case by (simp add: after_steps_def)
next
  case (Cons s steps)
  obtain env m where s: "s = (env, m)" by (cases s)
  have "processed_messages h \<subseteq> processed_messages (snd (process_match env m ([], h)))"
    by (rule process_match_keeps)
  also have "\<dots> \<subseteq> processed_messages (after_steps steps (snd (process_match env m ([], h))))"
    by (rule Cons.IH)
  finally show ?case by (simp add: after_steps_def s)
qed

lemma after_steps_append:
  "after_steps (xs @ ys) h = after_steps ys (after_steps xs h)"
  by (simp add: after_steps_def)

lemma fold_process_match_steps:
  "snd (fold (process_match env) ms (p, h)) = after_steps (map (Pair env) ms) h"
proof (induction ms arbitrary: p h)
  case Nil
  show ?case by (simp add: after_steps_def)
next
  case (Cons m ms)
  obtain p1 h1 where s: "process_match env m (p, h) = (p1, h1)"
    by (cases "process_match env m (p, h)")
  then have "h1 = snd (process_match env m ([], h))"
    using process_match_handler [of env m p h] by simp
  then show ?case
    using Cons.IH [of p1 h1] s by (simp add: after_steps_def)
qed

lemma process_new_messages_steps:
  "snd (process_new_messages env h)
   = after_steps (case get_matches env of Inl e \<Rightarrow> [] | Inr ms \<Rightarrow> map (Pair env) ms) h"
  by (cases "get_matches env")
     (auto simp: process_new_messages_def fold_process_match_steps after_steps_def)

lemma after_passes_steps: "\<exists>steps. after_passes envs h = after_steps steps h"
proof (induction envs arbitrary: h)
  case Nil
  have "after_passes [] h = after_steps [] h"
    by (simp add: after_passes_def after_steps_def)
  then show ?case by blast
next
  case (Cons env envs)
  let ?s = "case get_matches env of Inl e \<Rightarrow> [] | Inr ms \<Rightarrow> map (Pair env) ms"
  obtain steps where "after_passes envs (after_steps ?s h) = after_steps steps (after_steps ?s h)"
    using Cons.IH by blast
  then have "after_passes (env # envs) h = after_steps (?s @ steps) h"
    by (simp add: after_passes_def process_new_messages_steps after_steps_append)
  then show ?case by blast
qed

lemma after_passes_keeps:
  "processed_messages h \<subseteq> processed_messages (after_passes envs h)"
proof -
  obtain steps where "after_passes envs h = after_steps steps h"
    using after_passes_steps by blast
  then show ?thesis
    using after_steps_keeps [of h steps] by simp
qed

text \<open>
  The scenario of one conversation, for one handler object. The list of matches holds the one
  conversation \<open>c\<close>, whose newest inbound message has the timestamp \<open>t\<close> and is not yet in
  \<open>processed_messages\<close>; auto-approve is on, the generator returns a reply and the sink
  always delivers. Then a pass makes exactly one send, to \<open>c\<close>, and records the message
  under \<open>c_t\<close> in the set of the object; a second pass of the same object over the same
  list sends nothing and generates nothing.
\<close>

lemma single_conversation_same_handler:
  assumes "get_matches env1 = Inr [m]" and "get_matches env2 = Inr [m]"
    and "auto_approve env1"
    and "match_id m = Some c" and "user_messages m \<noteq> []"
    and "timestamp (last (user_messages m)) = Some t"
    and "generated_reply env1 m = Inr reply"
    and "c @ ''_'' @ t \<notin> processed_messages h"
  shows "send_calls (snd (process_new_messages env1 h)) = send_calls h @ [(Some c, reply)]
         \<and> c @ ''_'' @ t \<in> processed_messages (snd (process_new_messages env1 h))
         \<and> send_calls (snd (process_new_messages env2 (snd (process_new_messages env1 h))))
             = send_calls (snd (process_new_messages env1 h))
         \<and> generator_calls (snd (process_new_messages env2 (snd (process_new_messages env1 h))))
             = generator_calls (snd (process_new_messages env1 h))"
proof -
  let ?h1 = "snd (process_match env1 m ([], h))"
  have i: "msg_id m = c @ ''_'' @ t"
    using assms(4,6) by (simp add: msg_id_def py_str_def)
  have fresh: "msg_id m \<notin> processed_messages h"
    using assms(8) i by simp
  have p1: "process_new_messages env1 h = process_match env1 m ([], h)"
    using assms(1) by (rule process_new_messages_single)
  have p2: "process_new_messages env2 ?h1 = process_match env2 m ([], ?h1)"
    using assms(2) by (rule process_new_messages_single)
  note r = process_match_reply [OF assms(5) fresh assms(7), of "[]"]
  have s: "send_calls ?h1 = send_calls h @ [(Some c, reply)]"
    using r(3) assms(3,4) by simp
  have k: "msg_id m \<in> processed_messages ?h1"
    using r(2) by simp
  then have "process_match env2 m ([], ?h1) = ([], ?h1)"
    using process_match_skip [of m ?h1 env2 "[]"] by simp
  then show ?thesis
    using s k i p1 p2 by simp
qed

text \<open>
  What a new handler object knows of the pass of its predecessor: the chat log holds the
  entry of the reply, and the id read back from it is made of the clock time of the entry,
  not of the timestamp of the message.
\<close>

lemma sample_pass:
  "snd (process_new_messages (sample_env True) fresh_handler)
   = \<lparr>processed_messages = {''C1_T1''},
      chat_log_file =
        [Logged \<lparr>log_match_id = Some ''C1'', user_name = ascii ''Ann'', user_msg = ascii ''hey!'',
                 bot_reply = ascii ''Hi there'', log_timestamp = ''2024-01-01T00:00:00+00:00'',
                 log_personality = ''default'', auto = True, sent = Some True\<rparr>],
      auto_approved_file =
        [\<lparr>log_match_id = Some ''C1'', user_name = ascii ''Ann'', user_msg = ascii ''hey!'',
          bot_reply = ascii ''Hi there'', log_timestamp = ''2024-01-01T00:00:00+00:00'',
          log_personality = ''default'', auto = True, sent = Some True\<rparr>],
      generator_calls = [(ascii ''Ann'', [], [hey], ''default'')],
      send_calls = [(Some ''C1'', ascii ''Hi there'')]\<rparr>"
  by (simp add: process_new_messages_def process_match_def sample_env_def conversation_C1_def
        fresh_handler_def user_messages_def hey_def msg_id_def py_str_def generator_args_def
        generated_reply_def send_reply_def save_to_chat_log_def save_to_auto_approved_def Let_def)

text \<open>
  Claim C2 fails when the handler is started anew between the two passes. The first pass
  sends one reply to \<open>C1\<close> and records \<open>C1_T1\<close> in the set of the object; the new object
  reads the chat log back, which gives it the id of the clock time and not \<open>C1_T1\<close>, and
  its pass over the unchanged list sends to \<open>C1\<close> a second time.
\<close>

theorem restart_sends_again:
  "send_calls (snd (process_new_messages (sample_env True) fresh_handler))
     = [(Some ''C1'', ascii ''Hi there'')]
   \<and> processed_messages (snd (process_new_messages (sample_env True) fresh_handler)) = {''C1_T1''}
   \<and> processed_messages (restarted None (snd (process_new_messages (sample_env True) fresh_handler)))
       = {''C1_2024-01-01T00:00:00+00:00''}
   \<and> send_calls (snd (process_new_messages (sample_env True)
        (restarted None (snd (process_new_messages (sample_env True) fresh_handler)))))
       = [(Some ''C1'', ascii ''Hi there''), (Some ''C1'', ascii ''Hi there'')]"
proof -
  let ?h1 = "snd (process_new_messages (sample_env True) fresh_handler)"
  let ?h2 = "restarted None ?h1"
  have b: "user_messages conversation_C1 \<noteq> []"
    by (simp add: user_messages_def conversation_C1_def hey_def)
  have i: "msg_id conversation_C1 = ''C1_T1''"
    by (simp add: msg_id_def user_messages_def conversation_C1_def hey_def py_str_def)
  have d: "generated_reply (sample_env True) conversation_C1 = Inr (ascii ''Hi there'')"
    by (simp add: generated_reply_def generator_args_def sample_env_def)
  have l: "processed_messages ?h2 = {''C1_2024-01-01T00:00:00+00:00''}"
    by (simp add: sample_pass restarted_def new_handler_def load_processed_messages_def py_str_def)
  have s2: "send_calls ?h2 = [(Some ''C1'', ascii ''Hi there'')]"
    by (simp add: sample_pass restarted_def new_handler_def)
  have c: "msg_id conversation_C1 \<notin> processed_messages ?h2"
    unfolding l i by simp
  have p2: "process_new_messages (sample_env True) ?h2
            = process_match (sample_env True) conversation_C1 ([], ?h2)"
    by (rule process_new_messages_single) (simp add: sample_env_def)
  have "send_calls (snd (process_match (sample_env True) conversation_C1 ([], ?h2)))
        = send_calls ?h2 @ [(Some ''C1'', ascii ''Hi there'')]"
    using process_match_reply(3) [OF b c d, of "[]"]
    by (simp add: sample_env_def conversation_C1_def)
  then show ?thesis
    using l s2 p2 by (simp add: sample_pass)
qed

text \<open>
  Claim C1, as the specification states it, fails: with auto-approve on and a sink that
  does not deliver, the pass still records the message in \<open>processed_messages\<close>, and the
  next pass, even with a sink that delivers, neither generates a reply nor attempts a send.
\<close>

theorem failed_send_counterexample:
  "auto_approve (sample_env False)
   \<and> \<not> send_reply (sample_env False) (Some ''C1'') (ascii ''Hi there'')
   \<and> send_calls (snd (process_new_messages (sample_env False) fresh_handler))
       = [(Some ''C1'', ascii ''Hi there'')]
   \<and> ''C1_T1'' \<notin> processed_messages fresh_handler
   \<and> ''C1_T1'' \<in> processed_messages (snd (process_new_messages (sample_env False) fresh_handler))
   \<and> generator_calls (snd (process_new_messages (sample_env True)
         (snd (process_new_messages (sample_env False) fresh_handler))))
       = generator_calls (snd (process_new_messages (sample_env False) fresh_handler))
   \<and> send_calls (snd (process_new_messages (sample_env True)
         (snd (process_new_messages (sample_env False) fresh_handler))))
       = send_calls (snd (process_new_messages (sample_env False) fresh_handler))"
proof -
  let ?h1 = "snd (process_match (sample_env False) conversation_C1 ([], fresh_handler))"
  have a: "auto_approve (sample_env False)"
    by (simp add: sample_env_def)
  have b: "user_messages conversation_C1 \<noteq> []"
    by (simp add: user_messages_def conversation_C1_def hey_def)
  have i: "msg_id conversation_C1 = ''C1_T1''"
    by (simp add: msg_id_def user_messages_def conversation_C1_def hey_def py_str_def)
  have c: "msg_id conversation_C1 \<notin> processed_messages fresh_handler"
    by (simp add: fresh_handler_def)
  have d: "generated_reply (sample_env False) conversation_C1 = Inr (ascii ''Hi there'')"
    by (simp add: generated_reply_def generator_args_def sample_env_def)
  have e: "\<not> send_reply (sample_env False) (Some ''C1'') (ascii ''Hi there'')"
    by (simp add: send_reply_def sample_env_def)
  have m: "match_id conversation_C1 = Some ''C1''"
    by (simp add: conversation_C1_def)
  have p1: "process_new_messages (sample_env False) fresh_handler
            = process_match (sample_env False) conversation_C1 ([], fresh_handler)"
    by (rule process_new_messages_single) (simp add: sample_env_def)
  have p2: "process_new_messages (sample_env True) ?h1
            = process_match (sample_env True) conversation_C1 ([], ?h1)"
    by (rule process_new_messages_single) (simp add: sample_env_def)
  note r = process_match_reply [OF b c d, of "[]"]
  have s: "send_calls ?h1 = [(Some ''C1'', ascii ''Hi there'')]"
    using r(3) a m by (simp add: fresh_handler_def)
  have k: "''C1_T1'' \<in> processed_messages ?h1"
    using r(2) i by simp
  then have "process_match (sample_env True) conversation_C1 ([], ?h1) = ([], ?h1)"
    using process_match_skip [of conversation_C1 ?h1 "sample_env True" "[]"] i by simp
  with a e s k c i p1 p2 show ?thesis
    by simp
qed

text \<open>
  Claim C1, amended. With auto-approve on, a conversation whose newest inbound message is
  not yet recorded and for which the generator returns a reply has one send attempted;
  when the send fails nothing is appended to the auto-approved log, but the message is
  recorded in \<open>processed_messages\<close> all the same. The handler object keeps the record:
  in every state it reaches afterwards, by the rest of the pass and by any later passes
  in any environments (\<open>later\<close>, a run of the loop body), the conversation is skipped, so
  that no reply is generated and no send is attempted for the same inbound message.
\<close>

theorem failed_send_marks_processed:
  assumes "auto_approve env" and "user_messages m \<noteq> []"
    and "msg_id m \<notin> processed_messages h"
    and "generated_reply env m = Inr reply"
    and "\<not> send_reply env (match_id m) reply"
  shows "send_calls (snd (process_match env m (p, h))) = send_calls h @ [(match_id m, reply)]
         \<and> auto_approved_file (snd (process_match env m (p, h))) = auto_approved_file h
         \<and> processed_messages (snd (process_match env m (p, h)))
             = insert (msg_id m) (processed_messages h)
         \<and> process_match env' m (p', after_steps later (snd (process_match env m (p, h))))
             = (p', after_steps later (snd (process_match env m (p, h))))
         \<and> process_match env' m (p', after_passes envs (snd (process_match env m (p, h))))
             = (p', after_passes envs (snd (process_match env m (p, h))))"
proof -
  let ?h1 = "snd (process_match env m (p, h))"
  note r = process_match_reply [OF assms(2,3,4), of p]
  have k: "msg_id m \<in> processed_messages ?h1"
    using r(2) by simp
  have "msg_id m \<in> processed_messages (after_steps later ?h1)"
    using k after_steps_keeps [of ?h1 later] by auto
  then have 1: "process_match env' m (p', after_steps later ?h1) = (p', after_steps later ?h1)"
    using process_match_skip [of m "after_steps later ?h1" env' p'] by simp
  have "msg_id m \<in> processed_messages (after_passes envs ?h1)"
    using k after_passes_keeps [of ?h1 envs] by auto
  then have 2: "process_match env' m (p', after_passes envs ?h1) = (p', after_passes envs ?h1)"
    using process_match_skip [of m "after_passes envs ?h1" env' p'] by simp
  show ?thesis
    using r(2,3,4) assms(1,5) 1 2 by simp
qed

theorem failed_send_marks_processed_witness:
  "auto_approve (sample_env False) \<and> user_messages conversation_C1 \<noteq> []
   \<and> msg_id conversation_C1 \<notin> processed_messages fresh_handler
   \<and> generated_reply (sample_env False) conversation_C1 = Inr (ascii ''Hi there'')
   \<and> \<not> send_reply (sample_env False) (match_id conversation_C1) (ascii ''Hi there'')
   \<and> processed_messages (snd (process_match (sample_env False) conversation_C1 ([], fresh_handler)))
       = {''C1_T1''}
   \<and> process_match (sample_env True) conversation_C1
         ([], after_passes [sample_env True, sample_env True]
                (snd (process_match (sample_env False) conversation_C1 ([], fresh_handler))))
       = ([], after_passes [sample_env True, sample_env True]
                (snd (process_match (sample_env False) conversation_C1 ([], fresh_handler))))"
proof -
  have a: "auto_approve (sample_env False)"
    by (simp add: sample_env_def)
  have b: "user_messages conversation_C1 \<noteq> []"
    by (simp add: user_messages_def conversation_C1_def hey_def)
  have i: "msg_id conversation_C1 = ''C1_T1''"
    by (simp add: msg_id_def user_messages_def conversation_C1_def hey_def py_str_def)
  have c: "msg_id conversation_C1 \<notin> processed_messages fresh_handler"
    by (simp add: fresh_handler_def)
  have d: "generated_reply (sample_env False) conversation_C1 = Inr (ascii ''Hi there'')"
    by (simp add: generated_reply_def generator_args_def sample_env_def)
  have e: "\<not> send_reply (sample_env False) (match_id conversation_C1) (ascii ''Hi there'')"
    by (simp add: send_reply_def sample_env_def)
  note t = failed_send_marks_processed [OF a b c d e, of "[]" "sample_env True" "[]" "[]"
      "[sample_env True, sample_env True]"]
  from t have 1: "processed_messages
      (snd (process_match (sample_env False) conversation_C1 ([], fresh_handler))) = {''C1_T1''}"
    using i by (simp add: fresh_handler_def)
  from t have 2: "process_match (sample_env True) conversation_C1
         ([], after_passes [sample_env True, sample_env True]
                (snd (process_match (sample_env False) conversation_C1 ([], fresh_handler))))
       = ([], after_passes [sample_env True, sample_env True]
                (snd (process_match (sample_env False) conversation_C1 ([], fresh_handler))))"
    by blast
  from a b c d e 1 2 show ?thesis
    by blast
qed

text \<open>
  Claim C4, as the specification states it, fails: the conversation \<open>C1\<close> is in the
  rejected set of the data manager, and the pass hands it to the reply generator.
\<close>

theorem rejected_skip_counterexample:
  "is_rejected rejecting_manager ''C1'' \<and> match_id conversation_C1 = Some ''C1''
   \<and> generator_calls (snd (process_new_messages (sample_env True) fresh_handler))
       = [(ascii ''Ann'', [], [hey], ''default'')]"
proof -
  have a: "is_rejected rejecting_manager ''C1''"
    by (simp add: is_rejected_def rejecting_manager_def)
  have b: "match_id conversation_C1 = Some ''C1''"
    by (simp add: conversation_C1_def)
  have c: "user_messages conversation_C1 \<noteq> []"
    by (simp add: user_messages_def conversation_C1_def hey_def)
  have d: "generator_args (sample_env True) conversation_C1 = (ascii ''Ann'', [], [hey], ''default'')"
    by (simp add: generator_args_def conversation_C1_def sample_env_def)
  have "process_new_messages (sample_env True) fresh_handler
        = process_match (sample_env True) conversation_C1 ([], fresh_handler)"
    by (rule process_new_messages_single) (simp add: sample_env_def)
  with a b c d show ?thesis
    by (simp add: process_match_generator_calls fresh_handler_def)
qed

text \<open>
  Claim C4, amended. The pipeline does not consult the rejected set: for a conversation
  whose id is in it, the reply generator is invoked exactly when the conversation has an
  inbound message and its newest inbound message is not yet in \<open>processed_messages\<close>.
\<close>

theorem rejected_not_consulted:
  assumes "is_rejected dm c" and "match_id m = Some c"
  shows "generator_calls (snd (process_match env m (p, h)))
         = generator_calls h @
           (if user_messages m \<noteq> [] \<and> msg_id m \<notin> processed_messages h
            then [generator_args env m] else [])"
  by (rule process_match_generator_calls)

theorem rejected_not_consulted_witness:
  "is_rejected rejecting_manager ''C1'' \<and> match_id conversation_C1 = Some ''C1''
   \<and> generator_calls (snd (process_match (sample_env True) conversation_C1 ([], fresh_handler)))
       = [(ascii ''Ann'', [], [hey], ''default'')]"
proof -
  have a: "is_rejected rejecting_manager ''C1''"
    by (simp add: is_rejected_def rejecting_manager_def)
  have b: "match_id conversation_C1 = Some ''C1''"
    by (simp add: conversation_C1_def)
  have c: "user_messages conversation_C1 \<noteq> []"
    by (simp add: user_messages_def conversation_C1_def hey_def)
  have d: "generator_args (sample_env True) conversation_C1 = (ascii ''Ann'', [], [hey], ''default'')"
    by (simp add: generator_args_def conversation_C1_def sample_env_def)
  from rejected_not_consulted [OF a b, of "sample_env True" "[]" fresh_handler] a b c d
  show ?thesis
    by (simp add: fresh_handler_def)
qed

end
